theory Spec2Isabelle
  imports Main "HOL-Library.Sublist"
begin

section \<open>Errors, log lines and observable events\<close>

text \<open>
  A Go \<open>error\<close> value is either an error produced by the operating system or the
  \<open>net\<close> package (identified by its message), or an error built by
  \<open>fmt.Errorf("...: %w", err)\<close>, which carries its own message and the error it wraps.
  \<open>nil\<close> is \<open>None\<close> of \<open>error option\<close>.
\<close>

datatype error = OpError string | WrapError string error

fun Error :: "error \<Rightarrow> string" where
  "Error (OpError m) = m"
| "Error (WrapError m e) = m"

fun Unwrap :: "error \<Rightarrow> error option" where
  "Unwrap (OpError m) = None"
| "Unwrap (WrapError m e) = Some e"

definition Errorf_w :: "string \<Rightarrow> error \<Rightarrow> error" where
  "Errorf_w prefix_msg e = WrapError (prefix_msg @ Error e) e"

text \<open>
  Everything the process does that the outside can observe is appended to a trace:
  the calls to \<open>net.Listen\<close>, \<open>Accept\<close>, \<open>net.Dial\<close>, \<open>os.Remove\<close>,
  the closing of the listener, the lines handed to the logger (without the time stamp the
  logger puts in front) and the exit of the process through \<open>os.Exit\<close>.
\<close>

datatype event =
    EvListen string string
  | EvAccept
  | EvDial string string
  | EvLog string
  | EvRemove string
  | EvCloseListener
  | EvExit nat

definition logError :: "string \<Rightarrow> event" where
  "logError msg = EvLog (''ERROR: '' @ msg)"

section \<open>The address classifier\<close>

text \<open>\<open>strings.Contains(s, substr)\<close>: \<open>substr\<close> occurs somewhere within \<open>s\<close>.\<close>

fun strings_Contains :: "string \<Rightarrow> string \<Rightarrow> bool" where
  "strings_Contains [] substr = (substr = [])"
| "strings_Contains (c # s) substr = (prefix substr (c # s) \<or> strings_Contains s substr)"

definition isUnixSocket :: "string \<Rightarrow> bool" where
  "isUnixSocket addr = strings_Contains addr ''/''"

text \<open>
  The network family both \<open>getSourceListener\<close> and the connector closure choose from
  the classifier: \<open>network := "tcp"; if isUnixSocket(addr) { network = "unix" }\<close>.
\<close>

definition network_of :: "string \<Rightarrow> string" where
  "network_of addr = (if isUnixSocket addr then ''unix'' else ''tcp'')"

section \<open>The proxy and its terminal error\<close>

text \<open>
  The fields of \<open>proxy\<close> that carry state: the counter of the wait group \<open>wg\<close>, the
  network and address the \<open>connector\<close> closure captured, and the terminal error
  \<open>err\<close>. The mutex \<open>mu\<close> is held for the whole body of \<open>handleError\<close>, which
  therefore is one atomic step; what the listener and the connector return is the
  environment's and is supplied to each call.
\<close>

record proxy =
  wg :: nat
  connector :: "string \<times> string"
  err :: "error option"

text \<open>
  The proxy \<open>run\<close> builds: \<open>proxy{listener: listener, connector: ...(destAddr)}\<close>, the
  other fields at their zero values.
\<close>

definition new_proxy :: "string \<Rightarrow> proxy" where
  "new_proxy destAddr = \<lparr>wg = 0, connector = (network_of destAddr, destAddr), err = None\<rparr>"

text \<open>
  \<open>handleError\<close>: under the lock, \<open>if p.err == nil { log.Printf("ERROR: ignored error: %v", err); return }\<close>,
  then \<open>p.err = err\<close>. It returns the proxy and the lines it logged.
\<close>

definition handleError :: "error \<Rightarrow> proxy \<Rightarrow> proxy \<times> event list" where
  "handleError e p =
     (if err p = None then (p, [EvLog (''ERROR: ignored error: '' @ Error e)])
      else (p\<lparr>err := Some e\<rparr>, []))"

text \<open>A sequence of calls to \<open>handleError\<close>, each on the proxy the previous one left.\<close>

fun handleErrors :: "error list \<Rightarrow> proxy \<Rightarrow> proxy \<times> event list" where
  "handleErrors [] p = (p, [])"
| "handleErrors (e # es) p =
     (case handleError e p of (p', l) \<Rightarrow>
        (case handleErrors es p' of (p'', l') \<Rightarrow> (p'', l @ l')))"


section \<open>Connections\<close>

text \<open>
  A \<open>net.Conn\<close> as the relay sees it. \<open>inbox\<close> holds the bytes the peer has written
  that the relay has not read yet, \<open>peer_fin\<close> says that the peer has shut down its
  sending side (end-of-stream follows the inbox), \<open>faulty\<close> that a fault was injected
  (the peer reset the connection), \<open>outbox\<close> is what the relay has written, in order:
  the bytes the peer receives before it observes end-of-stream once the relay has
  \<open>closed\<close> the connection. \<open>peer_sent\<close> records everything the peer has written.
\<close>

record conn =
  inbox :: "char list"
  peer_sent :: "char list"
  peer_fin :: bool
  faulty :: bool
  outbox :: "char list"
  closed :: bool

definition new_conn :: conn where
  "new_conn = \<lparr>inbox = [], peer_sent = [], peer_fin = False, faulty = False,
                outbox = [], closed = False\<rparr>"

definition ErrClosed :: error where
  "ErrClosed = OpError ''use of closed network connection''"

definition ErrReset :: error where
  "ErrReset = OpError ''connection reset by peer''"

datatype read_result = ReadData "char list" | ReadEOF | ReadErr error | ReadBlocked

text \<open>
  \<open>Read\<close> into a buffer: at least one byte and at most \<open>Suc n\<close> bytes of what is
  there; an error on a closed or reset connection; end-of-stream when the peer has
  finished and nothing is left; otherwise the call blocks.
\<close>

definition conn_Read :: "nat \<Rightarrow> conn \<Rightarrow> read_result \<times> conn" where
  "conn_Read n c =
     (if closed c then (ReadErr ErrClosed, c)
      else if faulty c then (ReadErr ErrReset, c)
      else if inbox c \<noteq> [] then
        (ReadData (take (Suc n) (inbox c)), c\<lparr>inbox := drop (Suc n) (inbox c)\<rparr>)
      else if peer_fin c then (ReadEOF, c)
      else (ReadBlocked, c))"

definition conn_Write :: "char list \<Rightarrow> conn \<Rightarrow> error option \<times> conn" where
  "conn_Write bs c =
     (if closed c then (Some ErrClosed, c)
      else if faulty c then (Some ErrReset, c)
      else (None, c\<lparr>outbox := outbox c @ bs\<rparr>))"

definition conn_Close :: "conn \<Rightarrow> conn" where
  "conn_Close c = c\<lparr>closed := True\<rparr>"

text \<open>What the peer of a connection can do: write, finish writing, reset.\<close>

definition peer_send :: "char list \<Rightarrow> conn \<Rightarrow> conn" where
  "peer_send bs c =
     (if peer_fin c \<or> faulty c then c
      else c\<lparr>inbox := inbox c @ bs, peer_sent := peer_sent c @ bs\<rparr>)"

definition peer_finish :: "conn \<Rightarrow> conn" where
  "peer_finish c = c\<lparr>peer_fin := True\<rparr>"

definition peer_reset :: "conn \<Rightarrow> conn" where
  "peer_reset c = c\<lparr>faulty := True\<rparr>"

section \<open>One connection pair: \<open>handleConn\<close> and its goroutines\<close>

text \<open>
  The repository holds two revisions of the program: \<open>src/main.go\<close>, where
  \<open>handleConn\<close> derives a cancellable context and two goroutines close the
  connections once it is done (\<open>WithContext\<close>), and \<open>src/unnamed/part_001\<close>, where
  \<open>handleConn\<close> closes the connections with \<open>defer\<close> (\<open>WithDefer\<close>). The functions
  \<open>isUnixSocket\<close>, \<open>handleError\<close>, \<open>proxy.run\<close> and \<open>proxy.accept\<close> are the same
  in both.
\<close>

datatype revision = WithContext | WithDefer

text \<open>
  \<open>io.Copy(dst, src)\<close> reads a chunk from \<open>src\<close> and writes it to \<open>dst\<close> until
  \<open>src\<close> is at end-of-stream (it then returns \<open>nil\<close>) or a call fails (it returns
  the error). The goroutine around it then logs the error if there is one and runs its
  deferred calls: \<open>cancel()\<close> (in \<open>WithContext\<close> only), then \<open>wg.Done()\<close>.

  Where a copy goroutine stands: not started; about to \<open>Read\<close>; about to \<open>Write\<close> the
  chunk it read; \<open>io.Copy\<close> has returned (with \<open>nil\<close> or an error) and the test
  \<open>if err != nil\<close> is next; the deferred \<open>cancel()\<close> is next; the deferred
  \<open>wg.Done()\<close> is next; ended. A \<open>Read\<close> with nothing to read blocks: the step
  changes nothing. A \<open>Write\<close> never blocks (the connections buffer without bound).
\<close>

datatype copy_pc =
    CopyIdle
  | CopyRead
  | CopyWrite "char list"
  | CopyReturned "error option"
  | CopyCancel "error option"
  | CopyWgDone "error option"
  | CopyEnd "error option"

fun io_Copy_step :: "nat \<Rightarrow> copy_pc \<Rightarrow> conn \<Rightarrow> conn \<Rightarrow> copy_pc \<times> conn \<times> conn" where
  "io_Copy_step n CopyRead src dst =
     (case conn_Read n src of
        (ReadData bs, src') \<Rightarrow> (CopyWrite bs, src', dst)
      | (ReadEOF, src') \<Rightarrow> (CopyReturned None, src', dst)
      | (ReadErr e, src') \<Rightarrow> (CopyReturned (Some e), src', dst)
      | (ReadBlocked, src') \<Rightarrow> (CopyRead, src', dst))"
| "io_Copy_step n (CopyWrite bs) src dst =
     (case conn_Write bs dst of
        (None, dst') \<Rightarrow> (CopyRead, src, dst')
      | (Some e, dst') \<Rightarrow> (CopyReturned (Some e), src, dst'))"
| "io_Copy_step n pc src dst = (pc, src, dst)"

datatype handler_pc =
    HStart | HDial | HWait | HCancel | HCloseOut | HCloseIn | HWgDone | HDone

datatype closer_pc = CloserIdle | CloserWait | CloserDone

text \<open>
  Where \<open>handleConn\<close>'s own goroutine stands: at its first statements; in
  \<open>p.connector()\<close>; in \<open>wg.Wait()\<close>; before a deferred call (\<open>cancel()\<close>,
  \<open>out.Close()\<close>, \<open>in.Close()\<close>, \<open>p.wg.Done()\<close>); returned. A goroutine that
  closes a connection is not started, waits for the context, or has closed it.
\<close>

text \<open>
  The state of one call of \<open>handleConn\<close>: where its own goroutine stands, whether
  \<open>cancel()\<close> was called on its context, the counter of its local wait group, the two
  connections (\<open>cout\<close> exists from the successful dial on), the two goroutines that
  close a connection once the context is done, and the two copy goroutines:
  \<open>copy_back\<close> runs \<open>io.Copy(in, out)\<close>, \<open>copy_fwd\<close> runs \<open>io.Copy(out, in)\<close>.
\<close>

record handler =
  hpc :: handler_pc
  ctx_done :: bool
  lwg :: nat
  cin :: conn
  cout :: conn
  close_in :: closer_pc
  close_out :: closer_pc
  copy_back :: copy_pc
  copy_fwd :: copy_pc

definition new_handler :: handler where
  "new_handler = \<lparr>hpc = HStart, ctx_done = False, lwg = 0, cin = new_conn, cout = new_conn,
     close_in = CloserIdle, close_out = CloserIdle, copy_back = CopyIdle, copy_fwd = CopyIdle\<rparr>"

text \<open>
  The steps of \<open>handleConn\<close>'s own goroutine, the dial apart. The result says which
  events the step logs and whether it called \<open>p.wg.Done()\<close>. In \<open>WithContext\<close>:
  create the context, \<open>wg.Add(1)\<close> and start the goroutine that will close \<open>in\<close>;
  (dial); \<open>wg.Wait()\<close>, which returns when the local counter is zero; the deferred
  \<open>cancel()\<close>; the deferred \<open>p.wg.Done()\<close>. In \<open>WithDefer\<close>: register the deferred
  calls; (dial); \<open>wg.Wait()\<close>; the deferred \<open>out.Close()\<close>, \<open>in.Close()\<close> and
  \<open>p.wg.Done()\<close>.
\<close>

definition handleConn_step :: "revision \<Rightarrow> handler \<Rightarrow> handler \<times> event list \<times> bool" where
  "handleConn_step rv h =
     (case hpc h of
        HStart \<Rightarrow>
          (if rv = WithContext
           then (h\<lparr>hpc := HDial, lwg := lwg h + 1, close_in := CloserWait\<rparr>, [], False)
           else (h\<lparr>hpc := HDial\<rparr>, [], False))
      | HDial \<Rightarrow> (h, [], False)
      | HWait \<Rightarrow>
          (if lwg h = 0
           then (h\<lparr>hpc := (if rv = WithContext then HCancel else HCloseOut)\<rparr>, [], False)
           else (h, [], False))
      | HCancel \<Rightarrow> (h\<lparr>hpc := HWgDone, ctx_done := True\<rparr>, [], False)
      | HCloseOut \<Rightarrow> (h\<lparr>hpc := HCloseIn, cout := conn_Close (cout h)\<rparr>, [], False)
      | HCloseIn \<Rightarrow> (h\<lparr>hpc := HWgDone, cin := conn_Close (cin h)\<rparr>, [], False)
      | HWgDone \<Rightarrow> (h\<lparr>hpc := HDone\<rparr>, [], True)
      | HDone \<Rightarrow> (h, [], False))"

text \<open>
  \<open>out, err := p.connector()\<close> returns. The connector dials the network and address it
  captured. On an error: \<open>logError\<close> and \<open>return\<close>, so the deferred calls are next. On
  success, in \<open>WithContext\<close>: \<open>wg.Add(1)\<close>, start the goroutine that will close
  \<open>out\<close>, \<open>wg.Add(2)\<close>, start the two copy goroutines; in \<open>WithDefer\<close>:
  \<open>wg.Add(2)\<close> and start the two copy goroutines.
\<close>

definition dial_step ::
  "revision \<Rightarrow> string \<times> string \<Rightarrow> error option \<Rightarrow> handler \<Rightarrow> handler \<times> event list \<times> bool" where
  "dial_step rv dst res h =
     (if hpc h \<noteq> HDial then (h, [], False)
      else case res of
        Some e \<Rightarrow>
          (h\<lparr>hpc := (if rv = WithContext then HCancel else HCloseIn)\<rparr>,
           [EvDial (fst dst) (snd dst),
            logError (''could not connect to destination: '' @ Error e)], False)
      | None \<Rightarrow>
          (if rv = WithContext
           then (h\<lparr>hpc := HWait, lwg := lwg h + 1 + 2, close_out := CloserWait,
                   copy_back := CopyRead, copy_fwd := CopyRead\<rparr>,
                 [EvDial (fst dst) (snd dst)], False)
           else (h\<lparr>hpc := HWait, lwg := lwg h + 2,
                   copy_back := CopyRead, copy_fwd := CopyRead\<rparr>,
                 [EvDial (fst dst) (snd dst)], False)))"

text \<open>
  The goroutines \<open><-ctx.Done(); in.Close()\<close> and \<open><-ctx.Done(); out.Close()\<close>. The
  context is done when \<open>cancel()\<close> was called or when the parent context is done.
\<close>

definition closer_in_step :: "bool \<Rightarrow> handler \<Rightarrow> handler" where
  "closer_in_step parent h =
     (if close_in h = CloserWait \<and> (ctx_done h \<or> parent)
      then h\<lparr>cin := conn_Close (cin h), close_in := CloserDone\<rparr> else h)"

definition closer_out_step :: "bool \<Rightarrow> handler \<Rightarrow> handler" where
  "closer_out_step parent h =
     (if close_out h = CloserWait \<and> (ctx_done h \<or> parent)
      then h\<lparr>cout := conn_Close (cout h), close_out := CloserDone\<rparr> else h)"

text \<open>What a copy goroutine does once \<open>io.Copy\<close> has returned.\<close>

definition after_Copy :: "revision \<Rightarrow> string \<Rightarrow> error option \<Rightarrow> copy_pc \<times> event list" where
  "after_Copy rv msg eo =
     (if rv = WithContext then CopyCancel eo else CopyWgDone eo,
      case eo of None \<Rightarrow> [] | Some e \<Rightarrow> [logError (msg @ Error e)])"

definition copy_back_step :: "revision \<Rightarrow> nat \<Rightarrow> handler \<Rightarrow> handler \<times> event list" where
  "copy_back_step rv n h =
     (case copy_back h of
        CopyReturned eo \<Rightarrow>
          (case after_Copy rv
             ''while copying stream from destination back to the source: '' eo of
             (pc, evs) \<Rightarrow> (h\<lparr>copy_back := pc\<rparr>, evs))
      | CopyCancel eo \<Rightarrow> (h\<lparr>copy_back := CopyWgDone eo, ctx_done := True\<rparr>, [])
      | CopyWgDone eo \<Rightarrow> (h\<lparr>copy_back := CopyEnd eo, lwg := lwg h - 1\<rparr>, [])
      | pc \<Rightarrow>
          (case io_Copy_step n pc (cout h) (cin h) of
             (pc', src', dst') \<Rightarrow> (h\<lparr>copy_back := pc', cout := src', cin := dst'\<rparr>, [])))"

definition copy_fwd_step :: "revision \<Rightarrow> nat \<Rightarrow> handler \<Rightarrow> handler \<times> event list" where
  "copy_fwd_step rv n h =
     (case copy_fwd h of
        CopyReturned eo \<Rightarrow>
          (case after_Copy rv
             ''while copying stream from source into the destination: '' eo of
             (pc, evs) \<Rightarrow> (h\<lparr>copy_fwd := pc\<rparr>, evs))
      | CopyCancel eo \<Rightarrow> (h\<lparr>copy_fwd := CopyWgDone eo, ctx_done := True\<rparr>, [])
      | CopyWgDone eo \<Rightarrow> (h\<lparr>copy_fwd := CopyEnd eo, lwg := lwg h - 1\<rparr>, [])
      | pc \<Rightarrow>
          (case io_Copy_step n pc (cin h) (cout h) of
             (pc', src', dst') \<Rightarrow> (h\<lparr>copy_fwd := pc', cin := src', cout := dst'\<rparr>, [])))"

text \<open>
  The actions of one pair: a step of one of its goroutines, or a move of the client (the
  peer of \<open>in\<close>) or of the destination (the peer of \<open>out\<close>, once it is dialed). An
  action that is not enabled leaves the pair as it is.
\<close>

datatype pair_action =
    HandleConn
  | DialReturns "error option"
  | CloserIn
  | CloserOut
  | CopyBack nat
  | CopyFwd nat
  | ClientSend "char list"
  | ClientFin
  | ClientReset
  | DestSend "char list"
  | DestFin
  | DestReset

definition dialed :: "handler \<Rightarrow> bool" where
  "dialed h = (copy_fwd h \<noteq> CopyIdle)"

fun pair_step ::
  "revision \<Rightarrow> string \<times> string \<Rightarrow> bool \<Rightarrow> pair_action \<Rightarrow> handler
   \<Rightarrow> handler \<times> event list \<times> bool" where
  "pair_step rv dst parent HandleConn h = handleConn_step rv h"
| "pair_step rv dst parent (DialReturns res) h = dial_step rv dst res h"
| "pair_step rv dst parent CloserIn h = (closer_in_step parent h, [], False)"
| "pair_step rv dst parent CloserOut h = (closer_out_step parent h, [], False)"
| "pair_step rv dst parent (CopyBack n) h =
     (case copy_back_step rv n h of (h', evs) \<Rightarrow> (h', evs, False))"
| "pair_step rv dst parent (CopyFwd n) h =
     (case copy_fwd_step rv n h of (h', evs) \<Rightarrow> (h', evs, False))"
| "pair_step rv dst parent (ClientSend bs) h = (h\<lparr>cin := peer_send bs (cin h)\<rparr>, [], False)"
| "pair_step rv dst parent ClientFin h = (h\<lparr>cin := peer_finish (cin h)\<rparr>, [], False)"
| "pair_step rv dst parent ClientReset h = (h\<lparr>cin := peer_reset (cin h)\<rparr>, [], False)"
| "pair_step rv dst parent (DestSend bs) h =
     (if dialed h then (h\<lparr>cout := peer_send bs (cout h)\<rparr>, [], False) else (h, [], False))"
| "pair_step rv dst parent DestFin h =
     (if dialed h then (h\<lparr>cout := peer_finish (cout h)\<rparr>, [], False) else (h, [], False))"
| "pair_step rv dst parent DestReset h =
     (if dialed h then (h\<lparr>cout := peer_reset (cout h)\<rparr>, [], False) else (h, [], False))"

section \<open>The engine: \<open>proxy.run\<close>, \<open>proxy.accept\<close> and the goroutines they start\<close>

text \<open>
  \<open>proxy.run\<close> does \<open>p.wg.Add(1)\<close>, then evaluates \<open>p.accept()\<close> in its own goroutine
  (it is the argument of the \<open>go\<close> statement), starts \<open>p.handleError\<close> on what the loop
  returned, waits on \<open>p.wg\<close> and returns \<open>p.err\<close>.
\<close>

datatype run_pc = RunStart | RunAccept | RunWait | RunReturned "error option"

text \<open>
  A step of the engine is one blocking call of one goroutine (or one call on state that
  goroutines share) together with the statements of that goroutine that follow it and
  touch nothing another goroutine can see in between. The scheduler and the environment
  are the list of actions: which goroutine moves next, what \<open>Accept\<close> and the
  connector return, what the peers write. The counters of the wait groups are natural
  numbers; in a reachable state \<open>Done()\<close> is never called on a counter at zero
  (\<open>wg_inv\<close>, \<open>wait_inv\<close>, \<open>defer_inv\<close> below).
\<close>

text \<open>
  The state of the engine: the proxy, the trace, where \<open>proxy.run\<close> stands, the error
  of a started \<open>handleError\<close> goroutine that has not run yet, one \<open>handler\<close> for every
  connection accepted so far, and whether the context passed to \<open>proxy.run\<close> is done.
\<close>

record state =
  prx :: proxy
  trace :: "event list"
  rpc :: run_pc
  pending_error :: "error option"
  handlers :: "handler list"
  parent_done :: bool

definition init_state :: "string \<Rightarrow> state" where
  "init_state destAddr = \<lparr>prx = new_proxy destAddr, trace = [], rpc = RunStart,
     pending_error = None, handlers = [], parent_done = False\<rparr>"

text \<open>
  The actions: a step of \<open>proxy.run\<close> outside \<open>Accept\<close>; \<open>Accept\<close> returning a
  connection (\<open>None\<close>) or an error; the \<open>handleError\<close> goroutine; an action of the
  pair of the \<open>i\<close>-th accepted connection; the caller cancelling the context.
\<close>

datatype action =
    Run
  | AcceptReturns "error option"
  | HandleError
  | OnPair nat pair_action
  | ParentCancel

definition run_step :: "state \<Rightarrow> state" where
  "run_step s =
     (case rpc s of
        RunStart \<Rightarrow> s\<lparr>prx := (prx s)\<lparr>wg := wg (prx s) + 1\<rparr>, rpc := RunAccept\<rparr>
      | RunAccept \<Rightarrow> s
      | RunWait \<Rightarrow> (if wg (prx s) = 0 then s\<lparr>rpc := RunReturned (err (prx s))\<rparr> else s)
      | RunReturned r \<Rightarrow> s)"

text \<open>
  One round of the loop in \<open>proxy.accept\<close>. With a connection: \<open>p.wg.Add(1)\<close> and
  \<open>go p.handleConn(conn)\<close>. With an error: the loop returns the wrapped error, its
  deferred \<open>p.wg.Done()\<close> runs, and \<open>proxy.run\<close> starts the \<open>handleError\<close> goroutine
  on it and goes on to \<open>p.wg.Wait()\<close>.
\<close>

definition accept_step :: "error option \<Rightarrow> state \<Rightarrow> state" where
  "accept_step res s =
     (if rpc s \<noteq> RunAccept then s
      else case res of
        None \<Rightarrow>
          s\<lparr>trace := trace s @ [EvAccept],
            prx := (prx s)\<lparr>wg := wg (prx s) + 1\<rparr>,
            handlers := handlers s @ [new_handler]\<rparr>
      | Some e \<Rightarrow>
          s\<lparr>trace := trace s @ [EvAccept],
            prx := (prx s)\<lparr>wg := wg (prx s) - 1\<rparr>,
            pending_error := Some (Errorf_w ''could not listener.Accept(): '' e),
            rpc := RunWait\<rparr>)"

definition handle_error_step :: "state \<Rightarrow> state" where
  "handle_error_step s =
     (case pending_error s of
        None \<Rightarrow> s
      | Some e \<Rightarrow>
          (case handleError e (prx s) of
             (p', evs) \<Rightarrow> s\<lparr>prx := p', trace := trace s @ evs, pending_error := None\<rparr>))"

definition pair_action_step :: "revision \<Rightarrow> nat \<Rightarrow> pair_action \<Rightarrow> state \<Rightarrow> state" where
  "pair_action_step rv i a s =
     (if i < length (handlers s) then
        (case pair_step rv (connector (prx s)) (parent_done s) a (handlers s ! i) of
           (h', evs, d) \<Rightarrow>
             s\<lparr>handlers := (handlers s)[i := h'],
               trace := trace s @ evs,
               prx := (prx s)\<lparr>wg := wg (prx s) - (if d then 1 else 0)\<rparr>\<rparr>)
      else s)"

fun step :: "revision \<Rightarrow> action \<Rightarrow> state \<Rightarrow> state" where
  "step rv Run s = run_step s"
| "step rv (AcceptReturns res) s = accept_step res s"
| "step rv HandleError s = handle_error_step s"
| "step rv (OnPair i a) s = pair_action_step rv i a s"
| "step rv ParentCancel s = s\<lparr>parent_done := True\<rparr>"

fun exec :: "revision \<Rightarrow> action list \<Rightarrow> state \<Rightarrow> state" where
  "exec rv [] s = s"
| "exec rv (a # as) s = exec rv as (step rv a s)"

section \<open>The program: \<open>run\<close>\<close>

text \<open>
  \<open>getSourceListener\<close> calls \<open>net.Listen\<close> on the family the classifier gives; the
  result of the call is the environment's.
\<close>

definition getSourceListener :: "error option \<Rightarrow> string \<Rightarrow> event list \<times> error option" where
  "getSourceListener listen_result addr = ([EvListen (network_of addr) addr], listen_result)"

text \<open>
  Where \<open>run\<close> stands once the listener is bound. In \<open>WithDefer\<close> it calls \<open>p.run()\<close>
  itself and then runs its deferred calls, last registered first: \<open>listener.Close()\<close>,
  then the function that removes the socket file of a local-socket source address and
  logs when \<open>os.Remove\<close> fails. In \<open>WithContext\<close> a goroutine calls \<open>p.run(ctx)\<close> and
  then its deferred \<open>cancel()\<close>; another goroutine waits for the context and closes the
  listener; \<open>run\<close> waits for both and returns.
\<close>

datatype top_pc =
    TopRun
  | TopCancel "error option"
  | TopWait "error option"
  | TopCloseListener "error option"
  | TopRemove "error option"
  | TopRemoveLog "error option"
  | TopReturned "error option"

text \<open>
  The running program: the engine, where \<open>run\<close> stands, and whether the listener has
  been closed. The goroutines the engine started are not joined by \<open>run\<close>: they keep
  moving while \<open>run\<close> runs its deferred calls and after it has returned.
\<close>

record program =
  eng :: state
  tpc :: top_pc
  listener_closed :: bool

definition start :: "event list \<Rightarrow> string \<Rightarrow> program" where
  "start evs destAddr =
     \<lparr>eng = (init_state destAddr)\<lparr>trace := evs\<rparr>, tpc = TopRun, listener_closed = False\<rparr>"

text \<open>
  The actions of the program: an action of the engine, a step of \<open>run\<close> after
  \<open>p.run()\<close>, and (in \<open>WithContext\<close>) the goroutine \<open><-ctx.Done(); listener.Close()\<close>.
\<close>

datatype top_action = Engine action | RunTop | ListenerCloser

definition emit :: "event list \<Rightarrow> program \<Rightarrow> program" where
  "emit evs p = p\<lparr>eng := (eng p)\<lparr>trace := trace (eng p) @ evs\<rparr>\<rparr>"

definition run_top_step :: "revision \<Rightarrow> error option \<Rightarrow> string \<Rightarrow> program \<Rightarrow> program" where
  "run_top_step rv remove_result sourceAddr p =
     (case tpc p of
        TopRun \<Rightarrow>
          (case rpc (eng p) of
             RunReturned r \<Rightarrow>
               p\<lparr>tpc := (if rv = WithContext then TopCancel r else TopCloseListener r)\<rparr>
           | _ \<Rightarrow> p)
      | TopCancel r \<Rightarrow> p\<lparr>eng := (eng p)\<lparr>parent_done := True\<rparr>, tpc := TopWait r\<rparr>
      | TopWait r \<Rightarrow> (if listener_closed p then p\<lparr>tpc := TopReturned r\<rparr> else p)
      | TopCloseListener r \<Rightarrow>
          (emit [EvCloseListener] p)\<lparr>tpc := TopRemove r, listener_closed := True\<rparr>
      | TopRemove r \<Rightarrow>
          (if isUnixSocket sourceAddr then
             (emit [EvRemove sourceAddr] p)
               \<lparr>tpc := (case remove_result of None \<Rightarrow> TopReturned r
                         | Some e \<Rightarrow> TopRemoveLog r)\<rparr>
           else p\<lparr>tpc := TopReturned r\<rparr>)
      | TopRemoveLog r \<Rightarrow>
          (emit [logError (''could not remove socket '' @ sourceAddr)] p)\<lparr>tpc := TopReturned r\<rparr>
      | TopReturned r \<Rightarrow> p)"

definition listener_closer_step :: "revision \<Rightarrow> program \<Rightarrow> program" where
  "listener_closer_step rv p =
     (if rv = WithContext \<and> parent_done (eng p) \<and> \<not> listener_closed p
      then (emit [EvCloseListener] p)\<lparr>listener_closed := True\<rparr> else p)"

fun top_step ::
  "revision \<Rightarrow> error option \<Rightarrow> string \<Rightarrow> top_action \<Rightarrow> program \<Rightarrow> program" where
  "top_step rv remove_result sourceAddr (Engine a) p = p\<lparr>eng := step rv a (eng p)\<rparr>"
| "top_step rv remove_result sourceAddr RunTop p = run_top_step rv remove_result sourceAddr p"
| "top_step rv remove_result sourceAddr ListenerCloser p = listener_closer_step rv p"

fun top_exec ::
  "revision \<Rightarrow> error option \<Rightarrow> string \<Rightarrow> top_action list \<Rightarrow> program \<Rightarrow> program" where
  "top_exec rv remove_result sourceAddr [] p = p"
| "top_exec rv remove_result sourceAddr (a # as) p =
     top_exec rv remove_result sourceAddr as (top_step rv remove_result sourceAddr a p)"

text \<open>
  How a call of \<open>run\<close> ends: the process exits inside it (\<open>log.Fatalf\<close> logs and calls
  \<open>os.Exit(1)\<close>), it returns the engine's result, or it has not returned under the given
  schedule. The trace of a call that returned is the trace at the end of the schedule.
\<close>

datatype outcome =
    Exited nat "event list"
  | Returned "error option" "event list"
  | Waiting state

definition run ::
  "revision \<Rightarrow> error option \<Rightarrow> error option \<Rightarrow> top_action list \<Rightarrow> string \<Rightarrow> string \<Rightarrow> outcome" where
  "run rv listen_result remove_result sched sourceAddr destAddr =
     (case getSourceListener listen_result sourceAddr of
        (evs, Some e) \<Rightarrow>
          Exited 1 (evs @ [EvLog (''could not listen on the source: '' @ Error e), EvExit 1])
      | (evs, None) \<Rightarrow>
          (let p = top_exec rv remove_result sourceAddr sched (start evs destAddr) in
           case tpc p of
             TopReturned r \<Rightarrow> Returned r (trace (eng p))
           | _ \<Rightarrow> Waiting (eng p)))"


section \<open>Notions used to state the properties\<close>

text \<open>The calls of \<open>handleConn\<close> that have not yet run their \<open>p.wg.Done()\<close>.\<close>

definition in_flight :: "handler list \<Rightarrow> nat" where
  "in_flight hs = length (filter (\<lambda>h. hpc h \<noteq> HDone) hs)"

text \<open>
  The counter of \<open>p.wg\<close> stands at one for the accept loop while it runs, plus one for
  every call of \<open>handleConn\<close> in flight.
\<close>

definition wg_inv :: "state \<Rightarrow> bool" where
  "wg_inv s =
     (wg (prx s) = (if rpc s = RunAccept then 1 else 0) + in_flight (handlers s)
      \<and> (rpc s = RunStart \<longrightarrow> handlers s = []))"

text \<open>What \<open>io.Copy\<close> returned, once it has returned.\<close>

fun copy_result :: "copy_pc \<Rightarrow> error option option" where
  "copy_result (CopyReturned eo) = Some eo"
| "copy_result (CopyCancel eo) = Some eo"
| "copy_result (CopyWgDone eo) = Some eo"
| "copy_result (CopyEnd eo) = Some eo"
| "copy_result pc = None"

text \<open>A copy goroutine that has not yet called \<open>wg.Done()\<close> counts one.\<close>

fun pending :: "copy_pc \<Rightarrow> nat" where
  "pending (CopyEnd eo) = 0"
| "pending pc = 1"

text \<open>
  The state of one direction of a pair: \<open>src\<close> is the connection the direction reads,
  \<open>dst\<close> the one it writes, \<open>pc\<close> its copy goroutine. What the peer of \<open>src\<close> has
  written is what has reached \<open>dst\<close>, followed by the chunk in the goroutine's hands
  and by what waits in \<open>src\<close>; after \<open>io.Copy\<close> returned \<open>nil\<close> everything has
  reached \<open>dst\<close> and the peer has finished; after it returned an error what has
  reached \<open>dst\<close> is a prefix.
\<close>

definition stream_inv :: "copy_pc \<Rightarrow> conn \<Rightarrow> conn \<Rightarrow> bool" where
  "stream_inv pc src dst =
     (case copy_result pc of
        Some None \<Rightarrow> peer_sent src = outbox dst \<and> peer_fin src
      | Some (Some e) \<Rightarrow> prefix (outbox dst) (peer_sent src)
      | None \<Rightarrow>
          (case pc of
             CopyWrite bs \<Rightarrow> peer_sent src = outbox dst @ bs @ inbox src
           | _ \<Rightarrow> peer_sent src = outbox dst @ inbox src))"

text \<open>Both directions of a pair; no copy goroutine exists before the dial.\<close>

definition before_dial :: "handler \<Rightarrow> bool" where
  "before_dial h = (hpc h = HStart \<or> hpc h = HDial)"

definition pair_stream_inv :: "handler \<Rightarrow> bool" where
  "pair_stream_inv h =
     (stream_inv (copy_fwd h) (cin h) (cout h) \<and> stream_inv (copy_back h) (cout h) (cin h)
      \<and> (if before_dial h then copy_fwd h = CopyIdle \<and> copy_back h = CopyIdle else True))"

text \<open>
  The bookkeeping of \<open>handleConn\<close> in \<open>WithContext\<close>: before the dial the local counter
  is what \<open>wg.Add(1)\<close> made it; from a successful dial on \<open>handleConn\<close> is in
  \<open>wg.Wait()\<close> and the counter is two (for the two goroutines that close the
  connections, which never call \<open>wg.Done()\<close>) plus the copy goroutines still pending.
\<close>

definition wait_inv :: "handler \<Rightarrow> bool" where
  "wait_inv h =
     (if dialed h
      then hpc h = HWait \<and> copy_back h \<noteq> CopyIdle
           \<and> lwg h = 2 + pending (copy_back h) + pending (copy_fwd h)
      else copy_back h = CopyIdle \<and> hpc h \<noteq> HWait
           \<and> (hpc h = HStart \<longrightarrow> lwg h = 0) \<and> (hpc h = HDial \<longrightarrow> lwg h = 1))"

text \<open>
  In \<open>WithContext\<close> the goroutine that closes \<open>in\<close> exists from the first step of
  \<open>handleConn\<close> on, and \<open>in\<close> is closed once it has run.
\<close>

definition closer_inv :: "revision \<Rightarrow> handler \<Rightarrow> bool" where
  "closer_inv rv h =
     (rv = WithContext \<longrightarrow>
        (hpc h \<noteq> HStart \<longrightarrow> close_in h \<noteq> CloserIdle)
        \<and> (close_in h = CloserDone \<longrightarrow> closed (cin h)))"








text \<open>The actions that inject a fault: a peer resets a connection, the caller cancels.\<close>

fun injects_fault :: "action \<Rightarrow> bool" where
  "injects_fault (OnPair i ClientReset) = True"
| "injects_fault (OnPair i DestReset) = True"
| "injects_fault ParentCancel = True"
| "injects_fault a = False"

section \<open>Schedules used as examples\<close>

text \<open>
  No fault is injected. The client writes \<open>a\<close> and finishes, the destination writes
  \<open>b\<close>. The copy towards the destination delivers \<open>a\<close>, reads end-of-stream, returns
  and runs its deferred \<open>cancel()\<close>; the two closing goroutines close both connections;
  the copy towards the client then reads from the closed \<open>out\<close>.
\<close>

definition sched_truncated :: "action list" where
  "sched_truncated =
     [Run, AcceptReturns None, OnPair 0 HandleConn, OnPair 0 (DialReturns None),
      OnPair 0 (ClientSend ''a''), OnPair 0 ClientFin, OnPair 0 (DestSend ''b''),
      OnPair 0 (CopyFwd 0), OnPair 0 (CopyFwd 0), OnPair 0 (CopyFwd 0), OnPair 0 (CopyFwd 0),
      OnPair 0 (CopyFwd 0), OnPair 0 CloserIn, OnPair 0 CloserOut, OnPair 0 (CopyBack 0)]"

text \<open>
  Both sides finish without writing; both copies return \<open>nil\<close> and run all their
  deferred calls; both connections are closed; \<open>handleConn\<close> is scheduled again and
  again; then \<open>Accept\<close> fails and \<open>proxy.run\<close> is scheduled.
\<close>

definition sched_both_done :: "action list" where
  "sched_both_done =
     [Run, AcceptReturns None, OnPair 0 HandleConn, OnPair 0 (DialReturns None),
      OnPair 0 ClientFin, OnPair 0 DestFin,
      OnPair 0 (CopyFwd 0), OnPair 0 (CopyFwd 0), OnPair 0 (CopyFwd 0), OnPair 0 (CopyFwd 0),
      OnPair 0 (CopyBack 0), OnPair 0 (CopyBack 0), OnPair 0 (CopyBack 0), OnPair 0 (CopyBack 0),
      OnPair 0 CloserIn, OnPair 0 CloserOut,
      OnPair 0 HandleConn, OnPair 0 HandleConn, OnPair 0 HandleConn,
      AcceptReturns (Some (OpError ''use of closed network connection'')),
      HandleError, Run, Run]"

text \<open>
  A connection is accepted and dialed, then \<open>Accept\<close> fails while the pair is being
  spliced, and \<open>proxy.run\<close> is scheduled.
\<close>

definition sched_accept_fails_in_flight :: "action list" where
  "sched_accept_fails_in_flight =
     [Run, AcceptReturns None, OnPair 0 HandleConn, OnPair 0 (DialReturns None),
      AcceptReturns (Some (OpError ''use of closed network connection'')),
      HandleError, Run]"

text \<open>
  A connection is accepted, its dial fails and its \<open>handleConn\<close> returns; then
  \<open>Accept\<close> fails and \<open>proxy.run\<close> returns.
\<close>

definition sched_dial_fails :: "action list" where
  "sched_dial_fails =
     [Run, AcceptReturns None, OnPair 0 HandleConn,
      OnPair 0 (DialReturns (Some (OpError ''connection refused''))),
      OnPair 0 HandleConn, OnPair 0 HandleConn, OnPair 0 CloserIn,
      AcceptReturns (Some (OpError ''use of closed network connection'')),
      HandleError, Run]"




text \<open>A connection is accepted and its \<open>handleConn\<close> has reached the dial.\<close>

definition sched_dial_pending :: "action list" where
  "sched_dial_pending = [Run, AcceptReturns None, OnPair 0 HandleConn]"

section \<open>Bookkeeping of \<open>handleConn\<close> in \<open>WithDefer\<close>\<close>

definition returning :: "handler \<Rightarrow> bool" where
  "returning h = (hpc h = HCloseIn \<or> hpc h = HWgDone \<or> hpc h = HDone)"

text \<open>
  In \<open>WithDefer\<close> the local counter is the number of copy goroutines still pending,
  \<open>handleConn\<close> leaves \<open>wg.Wait()\<close> only when both have ended, the connections are
  closed by the deferred calls and by nothing else, and \<open>io.Copy\<close> returns an error only
  after a fault.
\<close>

definition defer_inv :: "handler \<Rightarrow> bool" where
  "defer_inv h =
     ((if dialed h
       then copy_back h \<noteq> CopyIdle \<and> lwg h = pending (copy_back h) + pending (copy_fwd h)
            \<and> hpc h \<noteq> HStart \<and> hpc h \<noteq> HDial \<and> hpc h \<noteq> HCancel
            \<and> (if hpc h = HWait then True else lwg h = 0)
            \<and> closed (cout h) = returning h
       else copy_back h = CopyIdle \<and> lwg h = 0 \<and> hpc h \<noteq> HWait \<and> hpc h \<noteq> HCloseOut
            \<and> hpc h \<noteq> HCancel \<and> \<not> closed (cout h))
      \<and> closed (cin h) = (hpc h = HWgDone \<or> hpc h = HDone)
      \<and> close_in h = CloserIdle \<and> close_out h = CloserIdle
      \<and> (case copy_result (copy_fwd h) of
            Some (Some e) \<Rightarrow> faulty (cin h) \<or> faulty (cout h) | _ \<Rightarrow> True)
      \<and> (case copy_result (copy_back h) of
            Some (Some e) \<Rightarrow> faulty (cin h) \<or> faulty (cout h) | _ \<Rightarrow> True))"

section \<open>The teardown of a pair in \<open>WithContext\<close>\<close>

text \<open>A copy goroutine whose deferred \<open>cancel()\<close> has run.\<close>

fun cancelled :: "copy_pc \<Rightarrow> bool" where
  "cancelled (CopyWgDone eo) = True"
| "cancelled (CopyEnd eo) = True"
| "cancelled pc = False"

text \<open>
  In \<open>WithContext\<close> a dialed pair has both closing goroutines; once a copy goroutine
  has run its \<open>cancel()\<close> the context is done; a connection is closed exactly when its
  closing goroutine has run.
\<close>

definition teardown_inv :: "handler \<Rightarrow> bool" where
  "teardown_inv h =
     ((if dialed h then close_in h \<noteq> CloserIdle \<and> close_out h \<noteq> CloserIdle
       else close_out h = CloserIdle \<and> copy_back h = CopyIdle)
      \<and> (if cancelled (copy_fwd h) \<or> cancelled (copy_back h) then ctx_done h else True)
      \<and> closed (cin h) = (close_in h = CloserDone)
      \<and> closed (cout h) = (close_out h = CloserDone)
      \<and> (hpc h = HStart) = (close_in h = CloserIdle)
      \<and> hpc h \<noteq> HCloseOut \<and> hpc h \<noteq> HCloseIn)"

section \<open>A pair whose dial has failed\<close>

text \<open>
  After a failed dial no outbound connection and no copy goroutine exists;
  \<open>handleConn\<close> is running its deferred calls or has returned. In \<open>WithDefer\<close> the
  inbound connection is closed before \<open>p.wg.Done()\<close>; in \<open>WithContext\<close> the context is
  done before \<open>p.wg.Done()\<close> and the goroutine that closes \<open>in\<close> is waiting for it or
  has closed \<open>in\<close>.
\<close>

definition dial_failed :: "revision \<Rightarrow> handler \<Rightarrow> bool" where
  "dial_failed rv h =
     (copy_fwd h = CopyIdle \<and> copy_back h = CopyIdle
      \<and> (case rv of
            WithContext \<Rightarrow>
              (hpc h = HCancel \<or> hpc h = HWgDone \<or> hpc h = HDone)
              \<and> (if hpc h = HCancel then True else ctx_done h)
              \<and> (if close_in h = CloserDone then closed (cin h) else close_in h = CloserWait)
          | WithDefer \<Rightarrow>
              (hpc h = HCloseIn \<or> hpc h = HWgDone \<or> hpc h = HDone)
              \<and> (if hpc h = HCloseIn then True else closed (cin h))))"


section \<open>A pair without an injected fault\<close>

text \<open>A copy goroutine whose \<open>io.Copy\<close> returned \<open>nil\<close>, and one whose returned an error.\<close>

definition clean :: "copy_pc \<Rightarrow> bool" where
  "clean pc = (copy_result pc = Some None)"

definition failed :: "copy_pc \<Rightarrow> bool" where
  "failed pc = (case copy_result pc of Some (Some e) \<Rightarrow> True | _ \<Rightarrow> False)"

text \<open>
  In \<open>WithContext\<close>, as long as the caller has not cancelled the context (\<open>parent\<close>) and
  neither connection was reset: a connection is closed only after \<open>cancel()\<close>; the
  context is not done before the dial; no \<open>io.Copy\<close> of a dialed pair fails before
  \<open>cancel()\<close>, and once the context is done one of them has returned \<open>nil\<close>.
\<close>

definition clean_inv :: "bool \<Rightarrow> handler \<Rightarrow> bool" where
  "clean_inv parent h =
     (parent \<or> faulty (cin h) \<or> faulty (cout h) \<or>
      ((if close_in h = CloserDone \<or> close_out h = CloserDone then ctx_done h else True)
       \<and> (if before_dial h then \<not> ctx_done h else True)
       \<and> (if dialed h
           then (if ctx_done h then clean (copy_fwd h) \<or> clean (copy_back h)
                 else \<not> failed (copy_fwd h) \<and> \<not> failed (copy_back h))
           else True)))"

definition context_inv :: "bool \<Rightarrow> handler \<Rightarrow> bool" where
  "context_inv parent h = (wait_inv h \<and> teardown_inv h \<and> clean_inv parent h)"

text \<open>No fault has been injected so far.\<close>

definition fault_free :: "state \<Rightarrow> bool" where
  "fault_free s =
     (\<not> parent_done s \<and> list_all (\<lambda>h. \<not> faulty (cin h) \<and> \<not> faulty (cout h)) (handlers s))"

text \<open>
  One connection is accepted and dialed; the client writes and finishes; the copy towards
  the destination moves the bytes in two chunks, reads end-of-stream, returns and runs
  its deferred \<open>cancel()\<close>; the goroutine that closes \<open>out\<close> runs: the destination
  has received everything and can observe end-of-stream.
\<close>

definition sched_delivered :: "action list" where
  "sched_delivered =
     [Run, AcceptReturns None, OnPair 0 HandleConn, OnPair 0 (DialReturns None),
      OnPair 0 (ClientSend ''deadbeef random string''), OnPair 0 ClientFin,
      OnPair 0 (CopyFwd 7), OnPair 0 (CopyFwd 0), OnPair 0 (CopyFwd 63), OnPair 0 (CopyFwd 0),
      OnPair 0 (CopyFwd 3), OnPair 0 (CopyFwd 0), OnPair 0 (CopyFwd 0), OnPair 0 CloserOut]"

text \<open>
  In \<open>WithDefer\<close>: the client writes \<open>ping\<close> and finishes, the destination writes
  \<open>pong\<close> and finishes, both copies move the bytes and end, \<open>handleConn\<close> leaves
  \<open>wg.Wait()\<close> and closes \<open>out\<close>.
\<close>

definition sched_defer_both :: "action list" where
  "sched_defer_both =
     [Run, AcceptReturns None, OnPair 0 HandleConn, OnPair 0 (DialReturns None),
      OnPair 0 (ClientSend ''ping''), OnPair 0 ClientFin,
      OnPair 0 (DestSend ''pong''), OnPair 0 DestFin,
      OnPair 0 (CopyFwd 9), OnPair 0 (CopyFwd 0), OnPair 0 (CopyFwd 0), OnPair 0 (CopyFwd 0),
      OnPair 0 (CopyFwd 0),
      OnPair 0 (CopyBack 9), OnPair 0 (CopyBack 0), OnPair 0 (CopyBack 0), OnPair 0 (CopyBack 0),
      OnPair 0 (CopyBack 0),
      OnPair 0 HandleConn, OnPair 0 HandleConn]"


section \<open>Properties of the classifier\<close>

lemma strings_Contains_char: "strings_Contains s [c] = (c \<in> set s)"
  by (induction s) auto

lemma isUnixSocket_iff: "isUnixSocket addr = (CHR ''/'' \<in> set addr)"
  by (simp add: isUnixSocket_def strings_Contains_char)

text \<open>
  C6: the classifier is a total function from strings to the two families; an address is
  a local-socket address exactly when it contains the path separator, and the four
  addresses of the specification classify as stated.
\<close>

theorem C6_classifier:
  "(isUnixSocket addr = (CHR ''/'' \<in> set addr))
   \<and> network_of addr = (if CHR ''/'' \<in> set addr then ''unix'' else ''tcp'')
   \<and> network_of ''127.0.0.1:8080'' = ''tcp''
   \<and> network_of ''example:9000'' = ''tcp''
   \<and> network_of ''/tmp/sock'' = ''unix''
   \<and> network_of ''./sock'' = ''unix''"
  by (simp add: network_of_def isUnixSocket_iff)

text \<open>
  C9: the empty string and every string without a slash are network addresses, every
  string with a slash anywhere is a local-socket address (also one shaped like
  host:port), and the classification depends on nothing but the slashes of the string.
\<close>

theorem C9_classifier_edges:
  "\<not> isUnixSocket ''''
   \<and> (CHR ''/'' \<notin> set addr \<longrightarrow> \<not> isUnixSocket addr \<and> network_of addr = ''tcp'')
   \<and> isUnixSocket (xs @ CHR ''/'' # ys)
   \<and> network_of (xs @ CHR ''/'' # ys) = ''unix''
   \<and> isUnixSocket ''example.com/x:80''
   \<and> isUnixSocket addr = isUnixSocket (filter (\<lambda>c. c = CHR ''/'') addr)"
  by (auto simp add: network_of_def isUnixSocket_iff)

theorem C9_classifier_edges_witness:
  "CHR ''/'' \<notin> set ''localhost'' \<and> \<not> isUnixSocket ''localhost''
   \<and> network_of ''localhost'' = ''tcp''
   \<and> isUnixSocket (''example.com'' @ CHR ''/'' # ''x:80'')"
  using C9_classifier_edges [of "''localhost''" "''example.com''" "''x:80''"] by simp

section \<open>The terminal error and the start of the program\<close>

lemma handleError_err_None: "err p = None \<Longrightarrow> handleError e p = (p, [EvLog (''ERROR: ignored error: '' @ Error e)])"
  by (simp add: handleError_def)

lemma handleErrors_err_None: "err p = None \<Longrightarrow> fst (handleErrors es p) = p"
  by (induction es) (auto simp: handleError_def split: prod.splits)

lemma step_err_None: "err (prx s) = None \<Longrightarrow> err (prx (step rv a s)) = None"
  by (cases a)
     (auto simp: run_step_def accept_step_def handle_error_step_def handleError_def
        pair_action_step_def split: run_pc.splits option.splits prod.splits)

lemma step_returned_nil:
  "err (prx s) = None \<Longrightarrow> rpc s \<noteq> RunReturned (Some e) \<Longrightarrow> rpc (step rv a s) \<noteq> RunReturned (Some e)"
  by (cases a)
     (auto simp: run_step_def accept_step_def handle_error_step_def handleError_def
        pair_action_step_def split: run_pc.splits option.splits prod.splits)

lemma exec_returned_nil:
  "err (prx s) = None \<Longrightarrow> rpc s \<noteq> RunReturned (Some e) \<Longrightarrow>
   err (prx (exec rv sched s)) = None \<and> rpc (exec rv sched s) \<noteq> RunReturned (Some e)"
  by (induction sched arbitrary: s) (simp_all add: step_err_None step_returned_nil)

text \<open>
  C1 claims that \<open>proxy.run\<close> returns a non-nil error wrapping the error of \<open>Accept\<close>
  when \<open>Accept\<close> fails. The code does not: \<open>handleError\<close> stores an error only when
  one is stored already, so \<open>p.err\<close> stays \<open>nil\<close>. Under every schedule, in both
  revisions, \<open>proxy.run\<close> never returns a non-nil error; when \<open>Accept\<close> fails at once
  it returns \<open>nil\<close>, whether the \<open>handleError\<close> goroutine runs before or after the
  read of \<open>p.err\<close>.
\<close>
theorem C1_run_returns_nil:
  "rpc (exec rv sched (init_state d)) \<noteq> RunReturned (Some e)
   \<and> rpc (exec rv [Run, AcceptReturns (Some a), HandleError, Run] (init_state d)) = RunReturned None
   \<and> rpc (exec rv [Run, AcceptReturns (Some a), Run, HandleError] (init_state d)) = RunReturned None"
proof -
  have "rpc (exec rv sched (init_state d)) \<noteq> RunReturned (Some e)"
    using exec_returned_nil [of "init_state d" e rv sched]
    by (simp add: init_state_def new_proxy_def)
  moreover have "rpc (exec rv [Run, AcceptReturns (Some a), HandleError, Run] (init_state d)) = RunReturned None"
    by (simp add: init_state_def new_proxy_def run_step_def accept_step_def
        handle_error_step_def handleError_def)
  moreover have "rpc (exec rv [Run, AcceptReturns (Some a), Run, HandleError] (init_state d)) = RunReturned None"
    by (simp add: init_state_def new_proxy_def run_step_def accept_step_def
        handle_error_step_def handleError_def)
  ultimately show ?thesis by simp
qed

text \<open>
  C5 claims first-write-wins: the first error handed to \<open>handleError\<close> is recorded and
  later ones are only logged. The code tests \<open>p.err == nil\<close> where its comment says
  "if there is already an error": on the proxy \<open>run\<close> builds, every call logs its
  error and records nothing, whatever the sequence of calls; and on a proxy that holds an
  error a call overwrites it and logs nothing.
\<close>
theorem C5_handleError_inverted:
  "fst (handleErrors es (new_proxy d)) = new_proxy d
   \<and> err (fst (handleErrors (e1 # e2 # es) (new_proxy d))) = None
   \<and> err (fst (handleError e2 (p\<lparr>err := Some e1\<rparr>))) = Some e2
   \<and> snd (handleError e2 (p\<lparr>err := Some e1\<rparr>)) = []"
proof -
  have n: "err (new_proxy d) = None" by (simp add: new_proxy_def)
  show ?thesis
    using handleErrors_err_None [OF n, of es] handleErrors_err_None [OF n, of "e1 # e2 # es"]
    by (simp add: handleError_def n del: handleErrors.simps)
qed

text \<open>
  C8: when \<open>net.Listen\<close> on the source address fails, \<open>run\<close> (in both revisions,
  whatever the schedule would have been) logs the error and exits with status 1; the
  trace of the process holds the call to \<open>net.Listen\<close> on the family the classifier
  chose, the log line and the exit, and no call to \<open>Accept\<close>.
\<close>
theorem C8_bind_failure_fatal:
  "run rv (Some e) remove_result sched sourceAddr destAddr =
     Exited 1 [EvListen (network_of sourceAddr) sourceAddr,
               EvLog (''could not listen on the source: '' @ Error e), EvExit 1]
   \<and> EvAccept \<notin> set [EvListen (network_of sourceAddr) sourceAddr,
               EvLog (''could not listen on the source: '' @ Error e), EvExit 1]"
  by (simp add: run_def getSourceListener_def)

section \<open>The wait group of the proxy\<close>

lemmas pair_defs = handleConn_step_def dial_step_def closer_in_step_def closer_out_step_def
  copy_back_step_def copy_fwd_step_def after_Copy_def

lemma pair_step_done:
  "pair_step rv dst par a h = (h', evs, d) \<Longrightarrow>
     (d \<longrightarrow> hpc h = HWgDone \<and> hpc h' = HDone) \<and> (\<not> d \<longrightarrow> (hpc h' = HDone) = (hpc h = HDone))"
  by (cases a)
     (auto simp: pair_defs split: handler_pc.splits if_splits option.splits copy_pc.splits prod.splits)

lemma in_flight_update:
  "i < length hs \<Longrightarrow>
   in_flight (hs[i := h']) + (if hpc (hs ! i) \<noteq> HDone then 1 else 0) =
   in_flight hs + (if hpc h' \<noteq> HDone then 1 else 0)"
proof (induction hs arbitrary: i)
  case Nil
  then show ?case by simp
next
  case (Cons x xs)
  show ?case
  proof (cases i)
    case 0
    then show ?thesis by (simp add: in_flight_def)
  next
    case (Suc j)
    with Cons.prems have "j < length xs" by simp
    from Cons.IH [OF this] Suc show ?thesis by (simp add: in_flight_def)
  qed
qed

lemma wg_inv_step: "wg_inv s \<Longrightarrow> wg_inv (step rv a s)"
proof (cases a)
  case Run
  then show "wg_inv s \<Longrightarrow> ?thesis"
    by (auto simp: wg_inv_def run_step_def in_flight_def split: run_pc.splits)
next
  case (AcceptReturns res)
  then show "wg_inv s \<Longrightarrow> ?thesis"
    by (auto simp: wg_inv_def accept_step_def in_flight_def new_handler_def split: option.splits)
next
  case HandleError
  then show "wg_inv s \<Longrightarrow> ?thesis"
    by (auto simp: wg_inv_def handle_error_step_def handleError_def split: option.splits)
next
  case (OnPair i pa)
  assume inv: "wg_inv s"
  show ?thesis
  proof (cases "i < length (handlers s)")
    case False
    with OnPair inv show ?thesis by (simp add: pair_action_step_def)
  next
    case True
    obtain h' evs d where ps:
      "pair_step rv (connector (prx s)) (parent_done s) pa (handlers s ! i) = (h', evs, d)"
      by (cases "pair_step rv (connector (prx s)) (parent_done s) pa (handlers s ! i)") auto
    note dn = pair_step_done [OF ps]
    note upd = in_flight_update [OF True, of h']
    have ne: "handlers s \<noteq> []" using True by auto
    show ?thesis
      using OnPair inv True ps dn upd ne
      by (cases d) (auto simp: pair_action_step_def wg_inv_def split: if_splits)
  qed
next
  case ParentCancel
  then show "wg_inv s \<Longrightarrow> ?thesis" by (simp add: wg_inv_def)
qed

lemma wg_inv_exec: "wg_inv s \<Longrightarrow> wg_inv (exec rv sched s)"
  by (induction sched arbitrary: s) (simp_all add: wg_inv_step)

lemma wg_inv_init: "wg_inv (init_state d)"
  by (simp add: wg_inv_def init_state_def new_proxy_def in_flight_def)

lemma returned_step:
  "wg_inv s \<Longrightarrow> (\<forall>r. rpc s = RunReturned r \<longrightarrow> wg (prx s) = 0) \<Longrightarrow>
   rpc (step rv a s) = RunReturned r \<Longrightarrow> wg (prx (step rv a s)) = 0"
  by (cases a)
     (auto simp: run_step_def accept_step_def handle_error_step_def handleError_def
        pair_action_step_def split: run_pc.splits option.splits prod.splits if_splits)

lemma returned_exec:
  "wg_inv s \<Longrightarrow> (\<forall>r. rpc s = RunReturned r \<longrightarrow> wg (prx s) = 0) \<Longrightarrow>
   rpc (exec rv sched s) = RunReturned r \<Longrightarrow> wg (prx (exec rv sched s)) = 0"
proof (induction sched arbitrary: s)
  case Nil
  then show ?case by simp
next
  case (Cons a as)
  have "wg_inv (step rv a s)" using Cons.prems(1) by (rule wg_inv_step)
  moreover have "\<forall>r. rpc (step rv a s) = RunReturned r \<longrightarrow> wg (prx (step rv a s)) = 0"
    using returned_step [OF Cons.prems(1,2)] by blast
  ultimately show ?case using Cons.IH Cons.prems(3) by simp
qed

lemma in_flight_0: "in_flight hs = 0 \<Longrightarrow> h \<in> set hs \<Longrightarrow> hpc h = HDone"
  by (auto simp: in_flight_def filter_empty_conv)

section \<open>Properties of every pair of a reachable state\<close>

lemma handlers_step:
  assumes new: "P new_handler"
    and pres: "\<And>dst par a h. P h \<Longrightarrow> P (fst (pair_step rv dst par a h))"
    and all: "\<forall>h \<in> set (handlers s). P h"
  shows "\<forall>h \<in> set (handlers (step rv a s)). P h"
proof (cases a)
  case Run
  then show ?thesis using all by (auto simp: run_step_def split: run_pc.splits)
next
  case (AcceptReturns res)
  then show ?thesis using all new by (auto simp: accept_step_def split: option.splits)
next
  case HandleError
  then show ?thesis using all by (auto simp: handle_error_step_def split: option.splits prod.splits)
next
  case (OnPair i pa)
  show ?thesis
  proof (cases "i < length (handlers s)")
    case False
    with OnPair all show ?thesis by (simp add: pair_action_step_def)
  next
    case True
    let ?r = "pair_step rv (connector (prx s)) (parent_done s) pa (handlers s ! i)"
    have "P (handlers s ! i)" using all True by simp
    then have "P (fst ?r)" by (rule pres)
    moreover have "handlers (step rv a s) = (handlers s)[i := fst ?r]"
      using OnPair True by (simp add: pair_action_step_def split: prod.splits)
    ultimately show ?thesis
      using all set_update_subset_insert [of "handlers s" i "fst ?r"] by auto
  qed
next
  case ParentCancel
  then show ?thesis using all by simp
qed

lemma handlers_exec:
  assumes new: "P new_handler"
    and pres: "\<And>dst par a h. P h \<Longrightarrow> P (fst (pair_step rv dst par a h))"
  shows "\<forall>h \<in> set (handlers s). P h \<Longrightarrow> \<forall>h \<in> set (handlers (exec rv sched s)). P h"
proof (induction sched arbitrary: s)
  case Nil
  then show ?case by simp
next
  case (Cons a as)
  have "\<forall>h \<in> set (handlers (step rv a s)). P h"
    using new pres Cons.prems by (rule handlers_step)
  then show ?case using Cons.IH by simp
qed

lemma handlers_reachable:
  assumes new: "P new_handler"
    and pres: "\<And>dst par a h. P h \<Longrightarrow> P (fst (pair_step rv dst par a h))"
    and h: "h \<in> set (handlers (exec rv sched (init_state d)))"
  shows "P h"
proof -
  have "\<forall>h \<in> set (handlers (init_state d)). P h" by (simp add: init_state_def)
  with handlers_exec [of P rv "init_state d" sched] new pres h show ?thesis by blast
qed

lemmas conn_defs = conn_Read_def conn_Write_def conn_Close_def peer_send_def peer_finish_def
  peer_reset_def

lemma closer_inv_new: "closer_inv rv new_handler"
  by (simp add: closer_inv_def new_handler_def)

lemma closer_inv_copy_back: "closer_inv rv h \<Longrightarrow> closer_inv rv (fst (copy_back_step rv n h))"
  by (cases "copy_back h")
     (auto simp: copy_back_step_def after_Copy_def closer_inv_def conn_defs
        split: prod.splits read_result.splits option.splits if_splits)

lemma closer_inv_copy_fwd: "closer_inv rv h \<Longrightarrow> closer_inv rv (fst (copy_fwd_step rv n h))"
  by (cases "copy_fwd h")
     (auto simp: copy_fwd_step_def after_Copy_def closer_inv_def conn_defs
        split: prod.splits read_result.splits option.splits if_splits)

lemma fst_pair_step_copy:
  "fst (pair_step rv dst par (CopyBack n) h) = fst (copy_back_step rv n h)"
  "fst (pair_step rv dst par (CopyFwd n) h) = fst (copy_fwd_step rv n h)"
  by (simp_all split: prod.splits)

lemma closer_inv_step: "closer_inv rv h \<Longrightarrow> closer_inv rv (fst (pair_step rv dst par a h))"
proof (cases a)
  case (CopyBack n)
  assume "closer_inv rv h"
  then show ?thesis using CopyBack closer_inv_copy_back [of rv h n] by (simp only: fst_pair_step_copy)
next
  case (CopyFwd n)
  assume "closer_inv rv h"
  then show ?thesis using CopyFwd closer_inv_copy_fwd [of rv h n] by (simp only: fst_pair_step_copy)
qed (auto simp: closer_inv_def handleConn_step_def dial_step_def closer_in_step_def
       closer_out_step_def conn_defs split: handler_pc.splits option.splits if_splits)

lemma wait_inv_new: "wait_inv new_handler"
  by (simp add: wait_inv_def new_handler_def dialed_def)

lemma wait_inv_copy_back: "wait_inv h \<Longrightarrow> wait_inv (fst (copy_back_step WithContext n h))"
  by (cases "copy_back h")
     (auto simp: copy_back_step_def after_Copy_def wait_inv_def dialed_def conn_defs
        split: prod.splits read_result.splits option.splits if_splits)

lemma wait_inv_copy_fwd: "wait_inv h \<Longrightarrow> wait_inv (fst (copy_fwd_step WithContext n h))"
  by (cases "copy_fwd h")
     (auto simp: copy_fwd_step_def after_Copy_def wait_inv_def dialed_def conn_defs
        split: prod.splits read_result.splits option.splits if_splits)

lemma wait_inv_step: "wait_inv h \<Longrightarrow> wait_inv (fst (pair_step WithContext dst par a h))"
proof (cases a)
  case (CopyBack n)
  assume "wait_inv h"
  then show ?thesis using CopyBack wait_inv_copy_back [of h n] by (simp only: fst_pair_step_copy)
next
  case (CopyFwd n)
  assume "wait_inv h"
  then show ?thesis using CopyFwd wait_inv_copy_fwd [of h n] by (simp only: fst_pair_step_copy)
qed (auto simp: wait_inv_def dialed_def handleConn_step_def dial_step_def closer_in_step_def
       closer_out_step_def split: handler_pc.splits option.splits if_splits)

section \<open>The bytes of a pair\<close>

lemma pair_stream_inv_new: "pair_stream_inv new_handler"
  by (simp add: pair_stream_inv_def stream_inv_def new_handler_def new_conn_def before_dial_def)

lemma stream_inv_frame:
  "peer_sent src' = peer_sent src \<Longrightarrow> inbox src' = inbox src \<Longrightarrow> peer_fin src' = peer_fin src \<Longrightarrow>
   outbox dst' = outbox dst \<Longrightarrow> stream_inv pc src' dst' = stream_inv pc src dst"
  by (cases pc) (auto simp: stream_inv_def split: option.splits)

lemma stream_inv_result:
  "copy_result pc = Some eo \<Longrightarrow> copy_result pc' = Some eo \<Longrightarrow>
   stream_inv pc' src dst = stream_inv pc src dst"
  by (cases eo) (simp_all add: stream_inv_def)

lemma stream_inv_peer_send: "stream_inv pc src dst \<Longrightarrow> stream_inv pc (peer_send bs src) dst"
  by (cases pc) (auto simp: stream_inv_def peer_send_def split: option.splits)

lemma stream_inv_peer_finish: "stream_inv pc src dst \<Longrightarrow> stream_inv pc (peer_finish src) dst"
  by (cases pc) (auto simp: stream_inv_def peer_finish_def split: option.splits)

lemma stream_inv_io_Copy:
  "stream_inv pc src dst \<Longrightarrow> io_Copy_step n pc src dst = (pc', src', dst') \<Longrightarrow>
   stream_inv pc' src' dst'"
  by (cases pc)
     (auto simp: stream_inv_def conn_Read_def conn_Write_def
        split: if_splits read_result.splits option.splits prod.splits)

lemma io_Copy_step_frame:
  "io_Copy_step n pc src dst = (pc', src', dst') \<Longrightarrow>
   peer_sent dst' = peer_sent dst \<and> inbox dst' = inbox dst \<and> peer_fin dst' = peer_fin dst
   \<and> outbox src' = outbox src"
  by (cases pc)
     (auto simp: conn_Read_def conn_Write_def
        split: if_splits read_result.splits option.splits prod.splits)

lemma io_Copy_step_idle:
  "io_Copy_step n pc src dst = (pc', src', dst') \<Longrightarrow> (pc' = CopyIdle) = (pc = CopyIdle)"
  by (cases pc)
     (auto simp: conn_Read_def conn_Write_def
        split: if_splits read_result.splits option.splits prod.splits)


lemma copy_back_step_io:
  "copy_result (copy_back h) = None \<Longrightarrow>
   copy_back_step rv n h =
     (case io_Copy_step n (copy_back h) (cout h) (cin h) of
        (pc', src', dst') \<Rightarrow> (h\<lparr>copy_back := pc', cout := src', cin := dst'\<rparr>, []))"
  by (cases "copy_back h") (simp_all add: copy_back_step_def)

lemma copy_fwd_step_io:
  "copy_result (copy_fwd h) = None \<Longrightarrow>
   copy_fwd_step rv n h =
     (case io_Copy_step n (copy_fwd h) (cin h) (cout h) of
        (pc', src', dst') \<Rightarrow> (h\<lparr>copy_fwd := pc', cin := src', cout := dst'\<rparr>, []))"
  by (cases "copy_fwd h") (simp_all add: copy_fwd_step_def)

lemma copy_back_step_result:
  "copy_result (copy_back h) = Some eo \<Longrightarrow>
   cin (fst (copy_back_step rv n h)) = cin h \<and> cout (fst (copy_back_step rv n h)) = cout h
   \<and> copy_result (copy_back (fst (copy_back_step rv n h))) = Some eo
   \<and> copy_fwd (fst (copy_back_step rv n h)) = copy_fwd h
   \<and> hpc (fst (copy_back_step rv n h)) = hpc h"
  by (cases "copy_back h") (auto simp: copy_back_step_def after_Copy_def)

lemma copy_fwd_step_result:
  "copy_result (copy_fwd h) = Some eo \<Longrightarrow>
   cin (fst (copy_fwd_step rv n h)) = cin h \<and> cout (fst (copy_fwd_step rv n h)) = cout h
   \<and> copy_result (copy_fwd (fst (copy_fwd_step rv n h))) = Some eo
   \<and> copy_back (fst (copy_fwd_step rv n h)) = copy_back h
   \<and> hpc (fst (copy_fwd_step rv n h)) = hpc h"
  by (cases "copy_fwd h") (auto simp: copy_fwd_step_def after_Copy_def)

lemma copy_result_not_idle: "copy_result pc = Some eo \<Longrightarrow> pc \<noteq> CopyIdle"
  by (cases pc) simp_all

lemma stream_inv_copy_back:
  assumes inv: "pair_stream_inv h"
  shows "pair_stream_inv (fst (copy_back_step rv n h))"
proof (cases "copy_result (copy_back h)")
  case None
  obtain pc' src' dst' where c: "io_Copy_step n (copy_back h) (cout h) (cin h) = (pc', src', dst')"
    by (cases "io_Copy_step n (copy_back h) (cout h) (cin h)") auto
  have own: "stream_inv pc' src' dst'"
    using inv c by (auto simp: pair_stream_inv_def intro: stream_inv_io_Copy)
  have other: "stream_inv (copy_fwd h) dst' src' = stream_inv (copy_fwd h) (cin h) (cout h)"
    using io_Copy_step_frame [OF c] by (intro stream_inv_frame) simp_all
  show ?thesis
    using inv own other io_Copy_step_idle [OF c]
    by (simp add: copy_back_step_io [OF None] c pair_stream_inv_def before_dial_def)
next
  case (Some eo)
  let ?h' = "fst (copy_back_step rv n h)"
  note r = copy_back_step_result [OF Some, of rv n]
  have "stream_inv (copy_back ?h') (cout h) (cin h) = stream_inv (copy_back h) (cout h) (cin h)"
    by (rule stream_inv_result [OF Some]) (simp add: r)
  then have "stream_inv (copy_back ?h') (cout ?h') (cin ?h') = stream_inv (copy_back h) (cout h) (cin h)"
    using r by simp
  moreover have "copy_back h \<noteq> CopyIdle" "copy_back ?h' \<noteq> CopyIdle"
    using r Some by (auto dest: copy_result_not_idle)
  ultimately show ?thesis
    using inv r by (auto simp: pair_stream_inv_def before_dial_def)
qed

lemma stream_inv_copy_fwd:
  assumes inv: "pair_stream_inv h"
  shows "pair_stream_inv (fst (copy_fwd_step rv n h))"
proof (cases "copy_result (copy_fwd h)")
  case None
  obtain pc' src' dst' where c: "io_Copy_step n (copy_fwd h) (cin h) (cout h) = (pc', src', dst')"
    by (cases "io_Copy_step n (copy_fwd h) (cin h) (cout h)") auto
  have own: "stream_inv pc' src' dst'"
    using inv c by (auto simp: pair_stream_inv_def intro: stream_inv_io_Copy)
  have other: "stream_inv (copy_back h) dst' src' = stream_inv (copy_back h) (cout h) (cin h)"
    using io_Copy_step_frame [OF c] by (intro stream_inv_frame) simp_all
  show ?thesis
    using inv own other io_Copy_step_idle [OF c]
    by (simp add: copy_fwd_step_io [OF None] c pair_stream_inv_def before_dial_def)
next
  case (Some eo)
  let ?h' = "fst (copy_fwd_step rv n h)"
  note r = copy_fwd_step_result [OF Some, of rv n]
  have "stream_inv (copy_fwd ?h') (cin h) (cout h) = stream_inv (copy_fwd h) (cin h) (cout h)"
    by (rule stream_inv_result [OF Some]) (simp add: r)
  then have "stream_inv (copy_fwd ?h') (cin ?h') (cout ?h') = stream_inv (copy_fwd h) (cin h) (cout h)"
    using r by simp
  moreover have "copy_fwd h \<noteq> CopyIdle" "copy_fwd ?h' \<noteq> CopyIdle"
    using r Some by (auto dest: copy_result_not_idle)
  ultimately show ?thesis
    using inv r by (auto simp: pair_stream_inv_def before_dial_def)
qed

lemma stream_inv_Close:
  "stream_inv pc (conn_Close src) dst = stream_inv pc src dst"
  "stream_inv pc src (conn_Close dst) = stream_inv pc src dst"
  by (rule stream_inv_frame; simp add: conn_Close_def)+

lemma stream_inv_peer_dst:
  "stream_inv pc src (peer_send bs dst) = stream_inv pc src dst"
  "stream_inv pc src (peer_finish dst) = stream_inv pc src dst"
  "stream_inv pc src (peer_reset dst) = stream_inv pc src dst"
  "stream_inv pc (peer_reset src) dst = stream_inv pc src dst"
  by (rule stream_inv_frame; simp add: peer_send_def peer_finish_def peer_reset_def)+

lemma stream_inv_start: "stream_inv CopyRead src dst = stream_inv CopyIdle src dst"
  by (simp add: stream_inv_def)

lemma pair_stream_inv_handleConn:
  "pair_stream_inv h \<Longrightarrow> pair_stream_inv (fst (handleConn_step rv h))"
  by (cases "hpc h")
     (auto simp: handleConn_step_def pair_stream_inv_def before_dial_def stream_inv_Close)

lemma pair_stream_inv_dial:
  "pair_stream_inv h \<Longrightarrow> pair_stream_inv (fst (dial_step rv dst res h))"
  by (cases res)
     (auto simp: dial_step_def pair_stream_inv_def before_dial_def stream_inv_start)

lemma pair_stream_inv_step:
  "pair_stream_inv h \<Longrightarrow> pair_stream_inv (fst (pair_step rv dst par a h))"
proof (cases a)
  case HandleConn
  assume "pair_stream_inv h"
  then show ?thesis using HandleConn by (simp add: pair_stream_inv_handleConn)
next
  case (DialReturns res)
  assume "pair_stream_inv h"
  then show ?thesis using DialReturns by (simp add: pair_stream_inv_dial)
next
  case (CopyBack n)
  assume "pair_stream_inv h"
  then show ?thesis using CopyBack stream_inv_copy_back [of h rv n] by (simp only: fst_pair_step_copy)
next
  case (CopyFwd n)
  assume "pair_stream_inv h"
  then show ?thesis using CopyFwd stream_inv_copy_fwd [of h rv n] by (simp only: fst_pair_step_copy)
qed (auto simp: pair_stream_inv_def before_dial_def closer_in_step_def closer_out_step_def
       stream_inv_Close stream_inv_peer_dst stream_inv_peer_send stream_inv_peer_finish)

section \<open>How a pair ends\<close>

lemma stream_inv_prefix:
  "stream_inv pc src dst \<Longrightarrow>
   prefix (outbox dst) (peer_sent src) \<and> (copy_result pc = Some None \<longrightarrow> outbox dst = peer_sent src)"
  by (cases pc) (auto simp: stream_inv_def split: option.splits)

lemma reachable_stream_inv:
  "h \<in> set (handlers (exec rv sched (init_state d))) \<Longrightarrow> pair_stream_inv h"
  by (rule handlers_reachable [where P = pair_stream_inv])
     (simp_all add: pair_stream_inv_new pair_stream_inv_step)

lemmas step_defs = run_step_def accept_step_def handle_error_step_def handleError_def
  pair_action_step_def init_state_def new_proxy_def new_handler_def new_conn_def
  handleConn_step_def dial_step_def closer_in_step_def closer_out_step_def
  copy_back_step_def copy_fwd_step_def after_Copy_def conn_defs dialed_def
  network_of_def isUnixSocket_iff Errorf_w_def logError_def ErrClosed_def ErrReset_def

text \<open>The states the example schedules lead to.\<close>

lemma exec_truncated:
  "handlers (exec WithContext sched_truncated (init_state ''127.0.0.1:9'')) =
     [\<lparr>hpc = HWait, ctx_done = True, lwg = 4,
       cin = \<lparr>inbox = [], peer_sent = ''a'', peer_fin = True,
               faulty = False, outbox = [], closed = True\<rparr>,
       cout = \<lparr>inbox = ''b'', peer_sent = ''b'', peer_fin = False, faulty = False,
                outbox = ''a'', closed = True\<rparr>,
       close_in = CloserDone, close_out = CloserDone,
       copy_back = CopyReturned (Some ErrClosed), copy_fwd = CopyWgDone None\<rparr>]"
  by (simp add: sched_truncated_def step_defs)

lemma exec_both_done:
  "exec WithContext sched_both_done (init_state ''127.0.0.1:9'') =
     \<lparr>prx = \<lparr>wg = 1, connector = (''tcp'', ''127.0.0.1:9''), err = None\<rparr>,
      trace = [EvAccept, EvDial ''tcp'' ''127.0.0.1:9'', EvAccept,
        EvLog ''ERROR: ignored error: could not listener.Accept(): use of closed network connection''],
      rpc = RunWait, pending_error = None,
      handlers =
        [\<lparr>hpc = HWait, ctx_done = True, lwg = 2,
          cin = \<lparr>inbox = [], peer_sent = [], peer_fin = True,
                  faulty = False, outbox = [], closed = True\<rparr>,
          cout = \<lparr>inbox = [], peer_sent = [], peer_fin = True, faulty = False,
                   outbox = [], closed = True\<rparr>,
          close_in = CloserDone, close_out = CloserDone,
          copy_back = CopyEnd None, copy_fwd = CopyEnd None\<rparr>],
      parent_done = False\<rparr>"
  by (simp add: sched_both_done_def step_defs)

lemma reachable_wait_inv:
  "h \<in> set (handlers (exec WithContext sched (init_state d))) \<Longrightarrow> wait_inv h"
  by (rule handlers_reachable [where P = wait_inv])
     (simp_all add: wait_inv_new wait_inv_step)

lemma wait_inv_blocked:
  "wait_inv h \<Longrightarrow> dialed h \<Longrightarrow>
   hpc h = HWait \<and> 2 \<le> lwg h \<and> handleConn_step WithContext h = (h, [], False)"
  by (simp add: wait_inv_def handleConn_step_def)

text \<open>
  C4 claims that \<open>handleConn\<close> returns once both copy tasks have finished. In
  \<open>src/main.go\<close> it never does: the local wait group is raised by four
  (\<open>wg.Add(1)\<close> twice, for the two closing goroutines, and \<open>wg.Add(2)\<close>) and only
  the two copy goroutines call \<open>wg.Done()\<close>. For every pair of every reachable state
  that was dialed, \<open>handleConn\<close> stands in \<open>wg.Wait()\<close>, the counter is at least
  two, and a step of \<open>handleConn\<close> changes nothing.
\<close>
theorem C4_handleConn_never_returns:
  assumes "h \<in> set (handlers (exec WithContext sched (init_state d)))" and "dialed h"
  shows "hpc h = HWait \<and> 2 \<le> lwg h \<and> handleConn_step WithContext h = (h, [], False)"
  using assms by (intro wait_inv_blocked reachable_wait_inv)

theorem C4_handleConn_never_returns_witness:
  "handlers (exec WithContext sched_both_done (init_state ''127.0.0.1:9'')) ! 0
     \<in> set (handlers (exec WithContext sched_both_done (init_state ''127.0.0.1:9'')))
   \<and> dialed (handlers (exec WithContext sched_both_done (init_state ''127.0.0.1:9'')) ! 0)
   \<and> copy_fwd (handlers (exec WithContext sched_both_done (init_state ''127.0.0.1:9'')) ! 0)
       = CopyEnd None
   \<and> copy_back (handlers (exec WithContext sched_both_done (init_state ''127.0.0.1:9'')) ! 0)
       = CopyEnd None
   \<and> closed (cin (handlers (exec WithContext sched_both_done (init_state ''127.0.0.1:9'')) ! 0))
   \<and> closed (cout (handlers (exec WithContext sched_both_done (init_state ''127.0.0.1:9'')) ! 0))
   \<and> hpc (handlers (exec WithContext sched_both_done (init_state ''127.0.0.1:9'')) ! 0) = HWait
   \<and> lwg (handlers (exec WithContext sched_both_done (init_state ''127.0.0.1:9'')) ! 0) = 2
   \<and> rpc (exec WithContext sched_both_done (init_state ''127.0.0.1:9'')) = RunWait"
  using C4_handleConn_never_returns [of "handlers (exec WithContext sched_both_done
        (init_state ''127.0.0.1:9'')) ! 0" sched_both_done "''127.0.0.1:9''"]
  by (simp add: exec_both_done dialed_def)

section \<open>When \<open>proxy.run\<close> returns, and what \<open>run\<close> does then\<close>

lemma exec_accept_fails_in_flight:
  "exec WithContext sched_accept_fails_in_flight (init_state ''127.0.0.1:9'') =
     \<lparr>prx = \<lparr>wg = 1, connector = (''tcp'', ''127.0.0.1:9''), err = None\<rparr>,
      trace = [EvAccept, EvDial ''tcp'' ''127.0.0.1:9'', EvAccept,
        EvLog ''ERROR: ignored error: could not listener.Accept(): use of closed network connection''],
      rpc = RunWait, pending_error = None,
      handlers =
        [\<lparr>hpc = HWait, ctx_done = False, lwg = 4,
          cin = \<lparr>inbox = [], peer_sent = [], peer_fin = False,
                  faulty = False, outbox = [], closed = False\<rparr>,
          cout = \<lparr>inbox = [], peer_sent = [], peer_fin = False, faulty = False,
                   outbox = [], closed = False\<rparr>,
          close_in = CloserWait, close_out = CloserWait,
          copy_back = CopyRead, copy_fwd = CopyRead\<rparr>],
      parent_done = False\<rparr>"
  by (simp add: sched_accept_fails_in_flight_def step_defs)

lemma exec_dial_fails:
  "exec WithContext sched_dial_fails (init_state ''127.0.0.1:9'') =
     \<lparr>prx = \<lparr>wg = 0, connector = (''tcp'', ''127.0.0.1:9''), err = None\<rparr>,
      trace = [EvAccept, EvDial ''tcp'' ''127.0.0.1:9'',
        EvLog ''ERROR: could not connect to destination: connection refused'', EvAccept,
        EvLog ''ERROR: ignored error: could not listener.Accept(): use of closed network connection''],
      rpc = RunReturned None, pending_error = None,
      handlers =
        [\<lparr>hpc = HDone, ctx_done = True, lwg = 1,
          cin = \<lparr>inbox = [], peer_sent = [], peer_fin = False,
                  faulty = False, outbox = [], closed = True\<rparr>,
          cout = \<lparr>inbox = [], peer_sent = [], peer_fin = False, faulty = False,
                   outbox = [], closed = False\<rparr>,
          close_in = CloserDone, close_out = CloserIdle,
          copy_back = CopyIdle, copy_fwd = CopyIdle\<rparr>],
      parent_done = False\<rparr>"
  by (simp add: sched_dial_fails_def step_defs)

lemma returned_all_done:
  assumes ret: "rpc (exec rv sched (init_state d)) = RunReturned r"
  shows "wg (prx (exec rv sched (init_state d))) = 0
   \<and> list_all (\<lambda>h. hpc h = HDone) (handlers (exec rv sched (init_state d)))"
proof -
  let ?s = "exec rv sched (init_state d)"
  have inv: "wg_inv ?s" by (rule wg_inv_exec [OF wg_inv_init])
  have z: "wg (prx ?s) = 0"
    by (rule returned_exec [OF wg_inv_init _ ret]) (simp add: init_state_def)
  from inv z have "in_flight (handlers ?s) = 0" by (simp add: wg_inv_def)
  with z show ?thesis by (auto simp: list_all_iff dest: in_flight_0)
qed

text \<open>
  C7, as amended: \<open>proxy.run\<close> returns only when the counter of \<open>p.wg\<close> is zero, that
  is when every call of \<open>handleConn\<close> started by the accept loop has run its deferred
  \<open>p.wg.Done()\<close>. In every reachable state (both revisions) in which \<open>proxy.run\<close> has
  returned, all handlers have returned and the accept loop accepts no more.
\<close>
theorem C7_run_waits_for_handlers:
  "rpc (exec rv sched (init_state d)) = RunReturned r \<Longrightarrow>
   wg (prx (exec rv sched (init_state d))) = 0
   \<and> list_all (\<lambda>h. hpc h = HDone) (handlers (exec rv sched (init_state d)))
   \<and> accept_step res (exec rv sched (init_state d)) = exec rv sched (init_state d)"
  using returned_all_done [of rv sched d r] by (simp add: accept_step_def)

theorem C7_run_waits_for_handlers_witness:
  "rpc (exec WithContext sched_dial_fails (init_state ''127.0.0.1:9'')) = RunReturned None
   \<and> length (handlers (exec WithContext sched_dial_fails (init_state ''127.0.0.1:9''))) = 1
   \<and> wg (prx (exec WithContext sched_dial_fails (init_state ''127.0.0.1:9''))) = 0
   \<and> list_all (\<lambda>h. hpc h = HDone)
        (handlers (exec WithContext sched_dial_fails (init_state ''127.0.0.1:9'')))"
  using C7_run_waits_for_handlers [of WithContext sched_dial_fails "''127.0.0.1:9''" None]
  by (simp add: exec_dial_fails)

theorem C7_counterexample:
  "EvAccept \<in> set (trace (exec WithContext sched_accept_fails_in_flight (init_state ''127.0.0.1:9'')))
   \<and> pending_error (exec WithContext sched_accept_fails_in_flight (init_state ''127.0.0.1:9'')) = None
   \<and> hpc (handlers (exec WithContext sched_accept_fails_in_flight (init_state ''127.0.0.1:9'')) ! 0) = HWait
   \<and> rpc (exec WithContext sched_accept_fails_in_flight (init_state ''127.0.0.1:9'')) = RunWait
   \<and> step WithContext Run (exec WithContext sched_accept_fails_in_flight (init_state ''127.0.0.1:9''))
       = exec WithContext sched_accept_fails_in_flight (init_state ''127.0.0.1:9'')"
  by (simp add: exec_accept_fails_in_flight run_step_def)

text \<open>In \<open>WithContext\<close>, a pair that was dialed keeps \<open>proxy.run\<close> from returning.\<close>

lemma run_blocked_after_dial:
  assumes h: "h \<in> set (handlers (exec WithContext sched (init_state d)))" and d: "dialed h"
  shows "rpc (exec WithContext sched (init_state d)) \<noteq> RunReturned r"
proof
  assume "rpc (exec WithContext sched (init_state d)) = RunReturned r"
  then have "list_all (\<lambda>h. hpc h = HDone) (handlers (exec WithContext sched (init_state d)))"
    using returned_all_done by blast
  with h have "hpc h = HDone" by (simp add: list_all_iff)
  moreover have "hpc h = HWait" using wait_inv_blocked [OF reachable_wait_inv [OF h] d] by simp
  ultimately show False by simp
qed

section \<open>What \<open>run\<close> does after \<open>p.run()\<close>\<close>












section \<open>The removal of the socket file\<close>











section \<open>A dial that fails\<close>

lemma step_connector: "connector (prx (step rv a s)) = connector (prx s)"
  by (cases a)
     (auto simp: run_step_def accept_step_def handle_error_step_def handleError_def
        pair_action_step_def split: run_pc.splits option.splits prod.splits)

lemma exec_connector: "connector (prx (exec rv sched s)) = connector (prx s)"
  by (induction sched arbitrary: s) (simp_all add: step_connector)

lemma reachable_connector:
  "connector (prx (exec rv sched (init_state d))) = (network_of d, d)"
  by (simp add: exec_connector init_state_def new_proxy_def)

lemma reachable_closer_inv:
  "h \<in> set (handlers (exec rv sched (init_state d))) \<Longrightarrow> closer_inv rv h"
  by (rule handlers_reachable [where P = "closer_inv rv"])
     (simp_all add: closer_inv_new closer_inv_step)

text \<open>The pair after a failed dial and the steps that follow it.\<close>

lemma dial_failure_pair:
  assumes "hpc h = HDial" "closer_inv rv h"
  shows "\<exists>h'. pair_step rv dst par (DialReturns (Some e)) h =
            (h', [EvDial (fst dst) (snd dst),
                  logError (''could not connect to destination: '' @ Error e)], False)
     \<and> (\<exists>h''. pair_step rv dst par HandleConn h' = (h'', [], False)
     \<and> (\<exists>h'''. pair_step rv dst par HandleConn h'' = (h''', [], True)
     \<and> hpc (fst (pair_step rv dst par CloserIn h''')) = HDone
     \<and> closed (cin (fst (pair_step rv dst par CloserIn h''')))
     \<and> snd (pair_step rv dst par CloserIn h''') = ([], False)))"
  using assms
  by (cases rv; cases "close_in h")
     (auto simp: dial_step_def handleConn_step_def closer_in_step_def closer_inv_def
        conn_Close_def)

text \<open>No action of a pair touches the terminal error or the accept loop.\<close>

lemma pair_action_frame:
  "err (prx (step rv (OnPair j a) s)) = err (prx s) \<and> rpc (step rv (OnPair j a) s) = rpc s
   \<and> pending_error (step rv (OnPair j a) s) = pending_error s"
  by (simp add: pair_action_step_def split: prod.splits)

lemma pair_action_step_at:
  assumes "i < length (handlers s)"
    and "pair_step rv (connector (prx s)) (parent_done s) a (handlers s ! i) = (h', evs, dn)"
  shows "pair_action_step rv i a s =
     s\<lparr>handlers := (handlers s)[i := h'], trace := trace s @ evs,
       prx := (prx s)\<lparr>wg := wg (prx s) - (if dn then 1 else 0)\<rparr>\<rparr>"
  using assms by (simp add: pair_action_step_def)

lemma dial_failed_step: "dial_failed rv h \<Longrightarrow> dial_failed rv (fst (pair_step rv dst par a h))"
  by (cases a; cases rv)
     (auto simp: dial_failed_def handleConn_step_def dial_step_def closer_in_step_def
        closer_out_step_def copy_back_step_def copy_fwd_step_def dialed_def conn_defs
        split: if_splits option.splits)

lemma dial_failed_start:
  "hpc h = HDial \<Longrightarrow> closer_inv rv h \<Longrightarrow> pair_stream_inv h \<Longrightarrow>
   dial_failed rv (fst (pair_step rv dst par (DialReturns (Some e)) h))"
  by (cases rv; cases "close_in h")
     (auto simp: dial_failed_def dial_step_def closer_inv_def pair_stream_inv_def before_dial_def
        dialed_def split: if_splits)

lemma handlers_step_nth:
  assumes pres: "\<And>dst par a h. P h \<Longrightarrow> P (fst (pair_step rv dst par a h))"
    and i: "i < length (handlers s)" and p: "P (handlers s ! i)"
  shows "i < length (handlers (step rv a s)) \<and> P (handlers (step rv a s) ! i)"
proof (cases a)
  case Run
  then show ?thesis using i p by (auto simp: run_step_def split: run_pc.splits)
next
  case (AcceptReturns res)
  then show ?thesis using i p by (auto simp: accept_step_def nth_append split: option.splits)
next
  case HandleError
  then show ?thesis using i p
    by (auto simp: handle_error_step_def split: option.splits prod.splits)
next
  case (OnPair j pa)
  show ?thesis
  proof (cases "j < length (handlers s)")
    case False
    with OnPair i p show ?thesis by (simp add: pair_action_step_def)
  next
    case True
    let ?r = "pair_step rv (connector (prx s)) (parent_done s) pa (handlers s ! j)"
    have hs: "handlers (step rv a s) = (handlers s)[j := fst ?r]"
      using OnPair True by (simp add: pair_action_step_def split: prod.splits)
    show ?thesis
    proof (cases "j = i")
      case True
      then show ?thesis using hs i pres [OF p, of "connector (prx s)" "parent_done s" pa] by simp
    next
      case False
      then show ?thesis using hs i p by simp
    qed
  qed
next
  case ParentCancel
  then show ?thesis using i p by simp
qed

lemma handlers_exec_nth:
  assumes pres: "\<And>dst par a h. P h \<Longrightarrow> P (fst (pair_step rv dst par a h))"
  shows "i < length (handlers s) \<Longrightarrow> P (handlers s ! i) \<Longrightarrow>
    i < length (handlers (exec rv sched s)) \<and> P (handlers (exec rv sched s) ! i)"
proof (induction sched arbitrary: s)
  case Nil
  then show ?case by simp
next
  case (Cons a as)
  from handlers_step_nth [of P rv i s a, OF pres Cons.prems]
  have "i < length (handlers (step rv a s))" "P (handlers (step rv a s) ! i)" by simp_all
  from Cons.IH [OF this] show ?case by simp
qed

text \<open>
  Whatever is scheduled after a failed dial: the pair is never dialed, and once its
  \<open>handleConn\<close> has returned the inbound connection is closed or, in \<open>WithContext\<close>,
  the context is done and the goroutine that closes it is ready to.
\<close>

lemma dial_failure_any_schedule:
  assumes s: "s = exec rv sched (init_state d)"
    and i: "i < length (handlers s)"
    and dial: "hpc (handlers s ! i) = HDial"
  shows "dial_failed rv (handlers (exec rv (OnPair i (DialReturns (Some e)) # sched2) s) ! i)"
proof -
  have mem: "handlers s ! i \<in> set (handlers (exec rv sched (init_state d)))"
    using i s by simp
  have ci: "closer_inv rv (handlers s ! i)" using mem by (rule reachable_closer_inv)
  have si: "pair_stream_inv (handlers s ! i)" using mem by (rule reachable_stream_inv)
  let ?s1 = "step rv (OnPair i (DialReturns (Some e))) s"
  let ?r = "pair_step rv (connector (prx s)) (parent_done s) (DialReturns (Some e)) (handlers s ! i)"
  have hs: "handlers ?s1 = (handlers s)[i := fst ?r]"
    using i by (simp add: pair_action_step_def split: prod.splits)
  have f1: "dial_failed rv (handlers ?s1 ! i)" and l1: "i < length (handlers ?s1)"
    using hs i dial_failed_start [OF dial ci si] by simp_all
  from handlers_exec_nth [of "dial_failed rv" rv i ?s1 sched2, OF dial_failed_step l1 f1]
  show ?thesis by simp
qed

lemma dial_failed_returned:
  "dial_failed rv h \<Longrightarrow> \<not> dialed h
     \<and> (hpc h = HDone \<longrightarrow> closed (cin h) \<or> (ctx_done h \<and> close_in h = CloserWait))"
  by (cases rv) (auto simp: dial_failed_def dialed_def split: if_splits)

text \<open>
  C2: in every reachable state of either revision, when the connector of a pair that
  waits for its dial returns an error, and the goroutines of that pair then run
  (\<open>handleConn\<close> twice and, in \<open>WithContext\<close>, the goroutine closing \<open>in\<close>), the
  inbound connection is closed and \<open>handleConn\<close> has returned; the terminal error, the
  place where \<open>proxy.run\<close> stands, the pending \<open>handleError\<close> and all other pairs
  are unchanged, the trace has grown by the dial and the log line, \<open>p.wg\<close> is lowered
  by one, and an accept loop that was accepting accepts the next connection. No later
  action of any pair changes the terminal error or the place where \<open>proxy.run\<close> stands.
  And whatever is scheduled after the failed dial, the pair stays as \<open>dial_failed\<close>
  describes it: never dialed, and its inbound connection closed, or about to be closed by
  the goroutine waiting for the cancelled context, once \<open>handleConn\<close> has returned.
\<close>
theorem C2_dial_failure_isolated:
  assumes s: "s = exec rv sched (init_state d)"
    and i: "i < length (handlers s)"
    and dial: "hpc (handlers s ! i) = HDial"
    and s': "s' = exec rv [OnPair i (DialReturns (Some e)), OnPair i HandleConn, OnPair i HandleConn,
                          OnPair i CloserIn] s"
  shows "closed (cin (handlers s' ! i)) \<and> hpc (handlers s' ! i) = HDone
     \<and> err (prx s') = err (prx s) \<and> wg (prx s') = wg (prx s) - 1
     \<and> rpc s' = rpc s \<and> pending_error s' = pending_error s
     \<and> handlers s' = (handlers s)[i := handlers s' ! i]
     \<and> trace s' = trace s @ [EvDial (network_of d) d,
          logError (''could not connect to destination: '' @ Error e)]
     \<and> (rpc s = RunAccept \<longrightarrow>
          rpc (step rv (AcceptReturns None) s') = RunAccept
          \<and> handlers (step rv (AcceptReturns None) s') = handlers s' @ [new_handler])
     \<and> (\<forall>j a. err (prx (step rv (OnPair j a) s')) = err (prx s')
            \<and> rpc (step rv (OnPair j a) s') = rpc s')
     \<and> (\<forall>sched2.
           dial_failed rv (handlers (exec rv (OnPair i (DialReturns (Some e)) # sched2) s) ! i))"
proof -
  let ?dst = "connector (prx s)"
  let ?par = "parent_done s"
  have mem: "handlers s ! i \<in> set (handlers (exec rv sched (init_state d)))"
    using i s by simp
  have ci: "closer_inv rv (handlers s ! i)" using mem by (rule reachable_closer_inv)
  have conn: "?dst = (network_of d, d)" using s by (simp add: reachable_connector)
  from dial_failure_pair [OF dial ci, of ?dst ?par e]
  obtain h1 h2 h3 where
    p1: "pair_step rv ?dst ?par (DialReturns (Some e)) (handlers s ! i) =
           (h1, [EvDial (fst ?dst) (snd ?dst),
                 logError (''could not connect to destination: '' @ Error e)], False)"
    and p2: "pair_step rv ?dst ?par HandleConn h1 = (h2, [], False)"
    and p3: "pair_step rv ?dst ?par HandleConn h2 = (h3, [], True)"
    and p4: "hpc (fst (pair_step rv ?dst ?par CloserIn h3)) = HDone"
      "closed (cin (fst (pair_step rv ?dst ?par CloserIn h3)))"
      "snd (pair_step rv ?dst ?par CloserIn h3) = ([], False)"
    by blast
  define h4 where "h4 = fst (pair_step rv ?dst ?par CloserIn h3)"
  have p4': "pair_step rv ?dst ?par CloserIn h3 = (h4, [], False)"
    using p4(3) by (simp add: h4_def prod_eq_iff)
  define s1 where "s1 = pair_action_step rv i (DialReturns (Some e)) s"
  have e1: "s1 = s\<lparr>handlers := (handlers s)[i := h1],
               trace := trace s @ [EvDial (fst ?dst) (snd ?dst),
                 logError (''could not connect to destination: '' @ Error e)],
               prx := (prx s)\<lparr>wg := wg (prx s) - 0\<rparr>\<rparr>"
    unfolding s1_def using pair_action_step_at [OF i p1] by simp
  define s2 where "s2 = pair_action_step rv i HandleConn s1"
  have e2: "s2 = s1\<lparr>handlers := (handlers s1)[i := h2], trace := trace s1 @ [],
               prx := (prx s1)\<lparr>wg := wg (prx s1) - 0\<rparr>\<rparr>"
    unfolding s2_def using i p2 by (subst pair_action_step_at [where h' = h2 and evs = "[]" and dn = False]) (simp_all add: e1)
  define s3 where "s3 = pair_action_step rv i HandleConn s2"
  have e3: "s3 = s2\<lparr>handlers := (handlers s2)[i := h3], trace := trace s2 @ [],
               prx := (prx s2)\<lparr>wg := wg (prx s2) - 1\<rparr>\<rparr>"
    unfolding s3_def using i p3 by (subst pair_action_step_at [where h' = h3 and evs = "[]" and dn = True]) (simp_all add: e2 e1)
  have e4: "s' = s3\<lparr>handlers := (handlers s3)[i := h4], trace := trace s3 @ [],
               prx := (prx s3)\<lparr>wg := wg (prx s3) - 0\<rparr>\<rparr>"
    unfolding s' using i p4'
    by (simp add: s3_def [symmetric] s2_def [symmetric] s1_def [symmetric])
       (subst pair_action_step_at [where h' = h4 and evs = "[]" and dn = False], simp_all add: e3 e2 e1)
  have hs: "handlers s' = (handlers s)[i := h4]" by (simp add: e4 e3 e2 e1)
  have at: "handlers s' ! i = h4" using i by (simp add: hs)
  have q: "hpc h4 = HDone" "closed (cin h4)" using p4(1,2) by (simp_all only: h4_def)
  have fr: "\<forall>j a. err (prx (step rv (OnPair j a) s')) = err (prx s')
            \<and> rpc (step rv (OnPair j a) s') = rpc s'"
    using pair_action_frame by blast
  have "closed (cin (handlers s' ! i)) \<and> hpc (handlers s' ! i) = HDone
     \<and> err (prx s') = err (prx s) \<and> wg (prx s') = wg (prx s) - 1
     \<and> rpc s' = rpc s \<and> pending_error s' = pending_error s
     \<and> handlers s' = (handlers s)[i := handlers s' ! i]
     \<and> trace s' = trace s @ [EvDial (network_of d) d,
          logError (''could not connect to destination: '' @ Error e)]
     \<and> (rpc s = RunAccept \<longrightarrow>
          rpc (step rv (AcceptReturns None) s') = RunAccept
          \<and> handlers (step rv (AcceptReturns None) s') = handlers s' @ [new_handler])"
    using i q conn by (simp add: at) (simp add: e4 e3 e2 e1 accept_step_def)
  moreover have "\<forall>sched2.
      dial_failed rv (handlers (exec rv (OnPair i (DialReturns (Some e)) # sched2) s) ! i)"
    using dial_failure_any_schedule [OF s i dial] by blast
  ultimately show ?thesis using fr by blast
qed

theorem C2_dial_failure_isolated_witness:
  "0 < length (handlers (exec WithContext sched_dial_pending (init_state ''127.0.0.1:9'')))
   \<and> hpc (handlers (exec WithContext sched_dial_pending (init_state ''127.0.0.1:9'')) ! 0) = HDial
   \<and> rpc (exec WithContext sched_dial_pending (init_state ''127.0.0.1:9'')) = RunAccept
   \<and> closed (cin (handlers (exec WithContext
         [OnPair 0 (DialReturns (Some (OpError ''connection refused''))), OnPair 0 HandleConn,
          OnPair 0 HandleConn, OnPair 0 CloserIn]
         (exec WithContext sched_dial_pending (init_state ''127.0.0.1:9''))) ! 0))
   \<and> hpc (handlers (exec WithContext
         [OnPair 0 (DialReturns (Some (OpError ''connection refused''))), OnPair 0 HandleConn,
          OnPair 0 HandleConn, OnPair 0 CloserIn]
         (exec WithContext sched_dial_pending (init_state ''127.0.0.1:9''))) ! 0) = HDone
   \<and> err (prx (exec WithContext
         [OnPair 0 (DialReturns (Some (OpError ''connection refused''))), OnPair 0 HandleConn,
          OnPair 0 HandleConn, OnPair 0 CloserIn]
         (exec WithContext sched_dial_pending (init_state ''127.0.0.1:9'')))) = None
   \<and> rpc (step WithContext (AcceptReturns None) (exec WithContext
         [OnPair 0 (DialReturns (Some (OpError ''connection refused''))), OnPair 0 HandleConn,
          OnPair 0 HandleConn, OnPair 0 CloserIn]
         (exec WithContext sched_dial_pending (init_state ''127.0.0.1:9'')))) = RunAccept
   \<and> length (handlers (step WithContext (AcceptReturns None) (exec WithContext
         [OnPair 0 (DialReturns (Some (OpError ''connection refused''))), OnPair 0 HandleConn,
          OnPair 0 HandleConn, OnPair 0 CloserIn]
         (exec WithContext sched_dial_pending (init_state ''127.0.0.1:9''))))) = 2"
proof -
  define s where "s = exec WithContext sched_dial_pending (init_state ''127.0.0.1:9'')"
  define s' where "s' = exec WithContext
         [OnPair 0 (DialReturns (Some (OpError ''connection refused''))), OnPair 0 HandleConn,
          OnPair 0 HandleConn, OnPair 0 CloserIn] s"
  have st: "s =
     \<lparr>prx = \<lparr>wg = 2, connector = (''tcp'', ''127.0.0.1:9''), err = None\<rparr>,
      trace = [EvAccept], rpc = RunAccept, pending_error = None,
      handlers = [new_handler\<lparr>hpc := HDial, lwg := 1, close_in := CloserWait\<rparr>],
      parent_done = False\<rparr>"
    unfolding s_def by (simp add: sched_dial_pending_def step_defs)
  have a: "0 < length (handlers s)" and b: "hpc (handlers s ! 0) = HDial"
    and c: "rpc s = RunAccept" and d: "err (prx s) = None" and l: "length (handlers s) = 1"
    by (simp_all add: st)
  note r = C2_dial_failure_isolated [OF s_def a b s'_def]
  have "handlers s' = (handlers s)[0 := handlers s' ! 0]" using r by blast
  then have "length (handlers s') = length (handlers s)" by (metis length_list_update)
  then have l': "length (handlers s') = 1" using l by simp
  have "0 < length (handlers s) \<and> hpc (handlers s ! 0) = HDial \<and> rpc s = RunAccept
    \<and> closed (cin (handlers s' ! 0)) \<and> hpc (handlers s' ! 0) = HDone \<and> err (prx s') = None
    \<and> rpc (step WithContext (AcceptReturns None) s') = RunAccept
    \<and> length (handlers (step WithContext (AcceptReturns None) s')) = 2"
    using r a b c d l' by simp
  then show ?thesis unfolding s'_def s_def .
qed

section \<open>How the two revisions tear a pair down\<close>

lemma defer_inv_new: "defer_inv new_handler"
  by (simp add: defer_inv_def new_handler_def new_conn_def dialed_def returning_def)

lemma defer_inv_copy_back: "defer_inv h \<Longrightarrow> defer_inv (fst (copy_back_step WithDefer n h))"
  by (cases "copy_back h"; cases "hpc h")
     (auto simp: copy_back_step_def after_Copy_def defer_inv_def dialed_def returning_def conn_defs
        split: prod.splits read_result.splits option.splits if_splits)

lemma defer_inv_copy_fwd: "defer_inv h \<Longrightarrow> defer_inv (fst (copy_fwd_step WithDefer n h))"
  by (cases "copy_fwd h"; cases "hpc h")
     (auto simp: copy_fwd_step_def after_Copy_def defer_inv_def dialed_def returning_def conn_defs
        split: prod.splits read_result.splits option.splits if_splits)

lemma defer_inv_step: "defer_inv h \<Longrightarrow> defer_inv (fst (pair_step WithDefer dst par a h))"
proof (cases a)
  case (CopyBack n)
  assume "defer_inv h"
  then show ?thesis using CopyBack defer_inv_copy_back [of h n] by (simp only: fst_pair_step_copy)
next
  case (CopyFwd n)
  assume "defer_inv h"
  then show ?thesis using CopyFwd defer_inv_copy_fwd [of h n] by (simp only: fst_pair_step_copy)
next
  case HandleConn
  assume "defer_inv h"
  then show ?thesis using HandleConn
    by (cases "hpc h"; cases "copy_fwd h"; cases "copy_back h")
       (auto simp: defer_inv_def dialed_def returning_def handleConn_step_def conn_defs
          split: option.splits if_splits)
next
  case (DialReturns res)
  assume "defer_inv h"
  then show ?thesis using DialReturns
    by (cases "hpc h"; cases res)
       (auto simp: defer_inv_def dialed_def returning_def dial_step_def split: option.splits if_splits)
qed (auto simp: defer_inv_def dialed_def returning_def closer_in_step_def closer_out_step_def
       conn_defs split: option.splits if_splits)


lemma reachable_defer_inv:
  "h \<in> set (handlers (exec WithDefer sched (init_state d))) \<Longrightarrow> defer_inv h"
  by (rule handlers_reachable [where P = defer_inv])
     (simp_all add: defer_inv_new defer_inv_step)

lemma pending_0: "pending pc = 0 \<Longrightarrow> \<exists>eo. pc = CopyEnd eo"
  by (cases pc) simp_all

text \<open>
  In \<open>WithDefer\<close>, once \<open>out\<close> is closed both copy goroutines have ended and
  \<open>handleConn\<close> is returning; without a fault on either connection both returned
  \<open>nil\<close> and each side has received all the other wrote.
\<close>

lemma defer_closed_complete:
  assumes h: "h \<in> set (handlers (exec WithDefer sched (init_state d)))"
    and c: "closed (cout h)"
  shows "returning h \<and> (\<exists>eo. copy_fwd h = CopyEnd eo) \<and> (\<exists>eo. copy_back h = CopyEnd eo)
     \<and> (\<not> faulty (cin h) \<and> \<not> faulty (cout h) \<longrightarrow>
          copy_fwd h = CopyEnd None \<and> copy_back h = CopyEnd None
          \<and> outbox (cout h) = peer_sent (cin h) \<and> outbox (cin h) = peer_sent (cout h))"
proof -
  have di: "defer_inv h" using h by (rule reachable_defer_inv)
  have si: "pair_stream_inv h" using h by (rule reachable_stream_inv)
  from di c have dl: "dialed h" by (auto simp: defer_inv_def split: if_splits)
  from di c dl have r: "returning h" by (simp add: defer_inv_def)
  from di dl r have "lwg h = 0" by (auto simp: defer_inv_def returning_def split: if_splits)
  with di dl have "pending (copy_back h) = 0" "pending (copy_fwd h) = 0"
    by (simp_all add: defer_inv_def)
  then obtain eb ef where e: "copy_back h = CopyEnd eb" "copy_fwd h = CopyEnd ef"
    by (auto dest!: pending_0)
  have nf: "\<not> faulty (cin h) \<and> \<not> faulty (cout h) \<longrightarrow> eb = None \<and> ef = None"
    using di e by (cases eb; cases ef) (auto simp: defer_inv_def)
  from si e have
    "ef = None \<longrightarrow> outbox (cout h) = peer_sent (cin h)"
    "eb = None \<longrightarrow> outbox (cin h) = peer_sent (cout h)"
    by (auto simp: pair_stream_inv_def stream_inv_def)
  with r e nf show ?thesis by auto
qed

text \<open>In \<open>WithDefer\<close>, \<open>handleConn\<close> has returned only with both connections closed.\<close>

lemma defer_returned_closed:
  assumes h: "h \<in> set (handlers (exec WithDefer sched (init_state d)))"
    and r: "hpc h = HDone"
  shows "closed (cin h) \<and> (dialed h \<longrightarrow> closed (cout h))"
  using reachable_defer_inv [OF h] r
  by (auto simp: defer_inv_def returning_def split: if_splits)

lemma teardown_inv_new: "teardown_inv new_handler"
  by (simp add: teardown_inv_def new_handler_def new_conn_def dialed_def)

lemma teardown_inv_copy_back:
  "teardown_inv h \<Longrightarrow> teardown_inv (fst (copy_back_step WithContext n h))"
  by (cases "copy_back h")
     (auto simp: copy_back_step_def after_Copy_def teardown_inv_def dialed_def conn_defs
        split: prod.splits read_result.splits option.splits if_splits)

lemma teardown_inv_copy_fwd:
  "teardown_inv h \<Longrightarrow> teardown_inv (fst (copy_fwd_step WithContext n h))"
  by (cases "copy_fwd h")
     (auto simp: copy_fwd_step_def after_Copy_def teardown_inv_def dialed_def conn_defs
        split: prod.splits read_result.splits option.splits if_splits)

lemma teardown_inv_step:
  "wait_inv h \<Longrightarrow> teardown_inv h \<Longrightarrow> teardown_inv (fst (pair_step WithContext dst par a h))"
proof (cases a)
  case (CopyBack n)
  assume "teardown_inv h"
  then show ?thesis using CopyBack teardown_inv_copy_back [of h n] by (simp only: fst_pair_step_copy)
next
  case (CopyFwd n)
  assume "teardown_inv h"
  then show ?thesis using CopyFwd teardown_inv_copy_fwd [of h n] by (simp only: fst_pair_step_copy)
next
  case HandleConn
  assume "wait_inv h" "teardown_inv h"
  then show ?thesis using HandleConn
    by (cases "hpc h")
       (auto simp: teardown_inv_def wait_inv_def dialed_def handleConn_step_def split: if_splits)
next
  case (DialReturns res)
  assume "wait_inv h" "teardown_inv h"
  then show ?thesis using DialReturns
    by (cases "hpc h"; cases res)
       (auto simp: teardown_inv_def wait_inv_def dialed_def dial_step_def split: if_splits)
qed (auto simp: teardown_inv_def dialed_def closer_in_step_def closer_out_step_def
       conn_defs split: option.splits if_splits)

lemma wait_teardown_step:
  "wait_inv h \<and> teardown_inv h \<Longrightarrow>
   wait_inv (fst (pair_step WithContext dst par a h))
   \<and> teardown_inv (fst (pair_step WithContext dst par a h))"
  by (simp add: wait_inv_step teardown_inv_step)

lemma reachable_wait_teardown_inv:
  "h \<in> set (handlers (exec WithContext sched (init_state d))) \<Longrightarrow> wait_inv h \<and> teardown_inv h"
  by (rule handlers_reachable [where P = "\<lambda>h. wait_inv h \<and> teardown_inv h"])
     (simp_all add: wait_inv_new teardown_inv_new wait_inv_step teardown_inv_step)

lemma reachable_teardown_inv:
  "h \<in> set (handlers (exec WithContext sched (init_state d))) \<Longrightarrow> teardown_inv h"
  using reachable_wait_teardown_inv by blast

text \<open>
  In \<open>WithContext\<close>, once a copy goroutine of a pair has run its deferred \<open>cancel()\<close>,
  both closing goroutines exist and are enabled or have run: after a step of each, both
  connections are closed, and a copy goroutine that then reads or writes gets an error
  instead of blocking.
\<close>

lemma teardown_after_cancel:
  assumes h: "h \<in> set (handlers (exec WithContext sched (init_state d)))"
    and c: "cancelled (copy_fwd h) \<or> cancelled (copy_back h)"
  shows "closed (cin (closer_out_step par (closer_in_step par h)))
     \<and> closed (cout (closer_out_step par (closer_in_step par h)))"
proof -
  have t: "teardown_inv h" using h by (rule reachable_teardown_inv)
  have dl: "dialed h" using t c by (cases "copy_fwd h") (auto simp: teardown_inv_def dialed_def split: if_splits)
  show ?thesis
    using t c dl
    by (cases "close_in h"; cases "close_out h")
       (auto simp: teardown_inv_def closer_in_step_def closer_out_step_def conn_Close_def
          split: if_splits)
qed

lemma closed_copy_unblocked:
  assumes "closed src" "closed dst"
  shows "fst (io_Copy_step n CopyRead src dst) = CopyReturned (Some ErrClosed)"
    and "fst (io_Copy_step n (CopyWrite bs) src dst) = CopyReturned (Some ErrClosed)"
  using assms by (simp_all add: conn_Read_def conn_Write_def)

section \<open>What a pair delivers\<close>

lemma clean_inv_new: "clean_inv par new_handler"
  by (simp add: clean_inv_def new_handler_def before_dial_def dialed_def)

lemma context_inv_new: "context_inv par new_handler"
  unfolding context_inv_def by (intro conjI wait_inv_new teardown_inv_new clean_inv_new)

lemma clean_inv_copy_back:
  "wait_inv h \<Longrightarrow> teardown_inv h \<Longrightarrow> clean_inv par h \<Longrightarrow>
   clean_inv par (fst (copy_back_step WithContext n h))"
  by (cases "copy_back h"; cases par)
     (auto simp: copy_back_step_def after_Copy_def clean_inv_def teardown_inv_def wait_inv_def
        clean_def failed_def before_dial_def dialed_def conn_defs
        split: prod.splits read_result.splits option.splits if_splits)

lemma clean_inv_copy_fwd:
  "wait_inv h \<Longrightarrow> teardown_inv h \<Longrightarrow> clean_inv par h \<Longrightarrow>
   clean_inv par (fst (copy_fwd_step WithContext n h))"
  by (cases "copy_fwd h"; cases par)
     (auto simp: copy_fwd_step_def after_Copy_def clean_inv_def teardown_inv_def wait_inv_def
        clean_def failed_def before_dial_def dialed_def conn_defs
        split: prod.splits read_result.splits option.splits if_splits)

lemma clean_inv_step:
  assumes w: "wait_inv h" and t: "teardown_inv h" and c: "clean_inv par h"
  shows "clean_inv par (fst (pair_step WithContext dst par a h))"
proof (cases a)
  case (CopyBack n)
  then show ?thesis using clean_inv_copy_back [OF w t c, of n] by (simp only: fst_pair_step_copy)
next
  case (CopyFwd n)
  then show ?thesis using clean_inv_copy_fwd [OF w t c, of n] by (simp only: fst_pair_step_copy)
next
  case HandleConn
  then show ?thesis using w t c
    by (cases "hpc h"; cases par)
       (auto simp: clean_inv_def teardown_inv_def wait_inv_def handleConn_step_def
          clean_def failed_def before_dial_def dialed_def split: if_splits)
next
  case (DialReturns res)
  then show ?thesis using w t c
    by (cases "hpc h"; cases res; cases par)
       (auto simp: clean_inv_def teardown_inv_def wait_inv_def dial_step_def
          clean_def failed_def before_dial_def dialed_def split: if_splits)
qed (use w t c in \<open>auto simp: clean_inv_def teardown_inv_def closer_in_step_def closer_out_step_def
       clean_def failed_def before_dial_def dialed_def conn_defs split: if_splits\<close>)

lemma context_inv_step:
  "context_inv par h \<Longrightarrow> context_inv par (fst (pair_step WithContext dst par a h))"
  by (simp add: context_inv_def wait_inv_step teardown_inv_step clean_inv_step)

lemma context_inv_parent: "context_inv par h \<Longrightarrow> context_inv True h"
  by (simp add: context_inv_def clean_inv_def)


text \<open>An invariant of the pairs that depends on whether the caller has cancelled.\<close>

lemma step_parent_done:
  "parent_done (step rv a s) = (parent_done s \<or> a = ParentCancel)"
  by (cases a)
     (auto simp: run_step_def accept_step_def handle_error_step_def pair_action_step_def
        split: run_pc.splits option.splits prod.splits)

lemma handlers_step_parent:
  assumes new: "\<And>par. P par new_handler"
    and pres: "\<And>dst par a h. P par h \<Longrightarrow> P par (fst (pair_step rv dst par a h))"
    and mono: "\<And>par h. P par h \<Longrightarrow> P True h"
    and all: "\<forall>h \<in> set (handlers s). P (parent_done s) h"
  shows "\<forall>h \<in> set (handlers (step rv a s)). P (parent_done (step rv a s)) h"
proof (cases a)
  case Run
  then show ?thesis using all by (auto simp: run_step_def split: run_pc.splits)
next
  case (AcceptReturns res)
  then show ?thesis using all new by (auto simp: accept_step_def split: option.splits)
next
  case HandleError
  then show ?thesis using all by (auto simp: handle_error_step_def split: option.splits prod.splits)
next
  case (OnPair i pa)
  show ?thesis
  proof (cases "i < length (handlers s)")
    case False
    with OnPair all show ?thesis by (simp add: pair_action_step_def)
  next
    case True
    let ?r = "pair_step rv (connector (prx s)) (parent_done s) pa (handlers s ! i)"
    have "P (parent_done s) (handlers s ! i)" using all True by simp
    then have "P (parent_done s) (fst ?r)" by (rule pres)
    moreover have "handlers (step rv a s) = (handlers s)[i := fst ?r]"
      and "parent_done (step rv a s) = parent_done s"
      using OnPair True by (simp_all add: pair_action_step_def split: prod.splits)
    ultimately show ?thesis
      using all set_update_subset_insert [of "handlers s" i "fst ?r"] by auto
  qed
next
  case ParentCancel
  then show ?thesis using all mono by auto
qed

lemma handlers_exec_parent:
  assumes new: "\<And>par. P par new_handler"
    and pres: "\<And>dst par a h. P par h \<Longrightarrow> P par (fst (pair_step rv dst par a h))"
    and mono: "\<And>par h. P par h \<Longrightarrow> P True h"
  shows "\<forall>h \<in> set (handlers s). P (parent_done s) h \<Longrightarrow>
    \<forall>h \<in> set (handlers (exec rv sched s)). P (parent_done (exec rv sched s)) h"
proof (induction sched arbitrary: s)
  case Nil
  then show ?case by simp
next
  case (Cons a as)
  have "\<forall>h \<in> set (handlers (step rv a s)). P (parent_done (step rv a s)) h"
    using new pres mono Cons.prems by (rule handlers_step_parent)
  then show ?case using Cons.IH by simp
qed

lemma reachable_context_inv:
  assumes "h \<in> set (handlers (exec WithContext sched (init_state d)))"
  shows "context_inv (parent_done (exec WithContext sched (init_state d))) h"
proof -
  have "\<forall>h \<in> set (handlers (init_state d)). context_inv (parent_done (init_state d)) h"
    by (simp add: init_state_def)
  with handlers_exec_parent [of context_inv WithContext "init_state d" sched]
    context_inv_new context_inv_step context_inv_parent assms
  show ?thesis by blast
qed

text \<open>
  In \<open>WithContext\<close>, without a fault on the pair: once a connection of a dialed pair
  is closed, one of the two \<open>io.Copy\<close> calls has returned \<open>nil\<close>, and that direction
  has delivered everything.
\<close>

lemma context_closed_one_complete:
  assumes h: "h \<in> set (handlers (exec WithContext sched (init_state d)))"
    and dl: "dialed h" and c: "closed (cin h) \<or> closed (cout h)"
    and nf: "\<not> faulty (cin h)" "\<not> faulty (cout h)"
      "\<not> parent_done (exec WithContext sched (init_state d))"
  shows "(copy_result (copy_fwd h) = Some None \<and> outbox (cout h) = peer_sent (cin h))
     \<or> (copy_result (copy_back h) = Some None \<and> outbox (cin h) = peer_sent (cout h))"
proof -
  have ci: "context_inv False h" using reachable_context_inv [OF h] nf(3) by simp
  have si: "pair_stream_inv h" using h by (rule reachable_stream_inv)
  from ci c have "ctx_done h"
    using nf by (auto simp: context_inv_def teardown_inv_def clean_inv_def split: if_splits)
  with ci dl nf have "clean (copy_fwd h) \<or> clean (copy_back h)"
    by (auto simp: context_inv_def clean_inv_def split: if_splits)
  moreover from si have
    "copy_result (copy_fwd h) = Some None \<longrightarrow> outbox (cout h) = peer_sent (cin h)"
    "copy_result (copy_back h) = Some None \<longrightarrow> outbox (cin h) = peer_sent (cout h)"
    using stream_inv_prefix by (auto simp: pair_stream_inv_def)
  ultimately show ?thesis by (auto simp: clean_def)
qed

text \<open>In \<open>WithDefer\<close> \<open>in\<close> is closed after \<open>out\<close>.\<close>

lemma defer_closed_in_out:
  assumes h: "h \<in> set (handlers (exec WithDefer sched (init_state d)))"
    and dl: "dialed h" and c: "closed (cin h) \<or> closed (cout h)"
  shows "closed (cout h)"
  using reachable_defer_inv [OF h] dl c
  by (auto simp: defer_inv_def returning_def split: if_splits)

text \<open>A schedule without a fault leaves every pair without a fault.\<close>

lemma pair_step_faulty:
  "a \<noteq> ClientReset \<Longrightarrow> a \<noteq> DestReset \<Longrightarrow>
   faulty (cin (fst (pair_step rv dst par a h))) = faulty (cin h)
   \<and> faulty (cout (fst (pair_step rv dst par a h))) = faulty (cout h)"
proof (cases a)
  case (CopyBack n)
  then show ?thesis
    by (cases "copy_back h")
       (auto simp: copy_back_step_def after_Copy_def conn_defs
          split: prod.splits read_result.splits option.splits if_splits)
next
  case (CopyFwd n)
  then show ?thesis
    by (cases "copy_fwd h")
       (auto simp: copy_fwd_step_def after_Copy_def conn_defs
          split: prod.splits read_result.splits option.splits if_splits)
qed (auto simp: handleConn_step_def dial_step_def closer_in_step_def closer_out_step_def
       conn_defs split: handler_pc.splits option.splits if_splits)

lemma fault_free_step:
  assumes "fault_free s" and "\<not> injects_fault a"
  shows "fault_free (step rv a s)"
proof (cases a)
  case (OnPair i pa)
  show ?thesis
  proof (cases "i < length (handlers s)")
    case False
    with OnPair assms show ?thesis by (simp add: pair_action_step_def)
  next
    case True
    let ?r = "pair_step rv (connector (prx s)) (parent_done s) pa (handlers s ! i)"
    have ne: "pa \<noteq> ClientReset" "pa \<noteq> DestReset" using assms(2) OnPair by auto
    have old: "\<not> faulty (cin (handlers s ! i)) \<and> \<not> faulty (cout (handlers s ! i))"
      using assms(1) True by (simp add: fault_free_def list_all_length)
    have new: "\<not> faulty (cin (fst ?r)) \<and> \<not> faulty (cout (fst ?r))"
      using pair_step_faulty [OF ne, of rv "connector (prx s)" "parent_done s" "handlers s ! i"] old
      by simp
    have hs: "handlers (step rv a s) = (handlers s)[i := fst ?r]"
      and pd: "parent_done (step rv a s) = parent_done s"
      using OnPair True by (simp_all add: pair_action_step_def split: prod.splits)
    show ?thesis
      using assms(1) new True unfolding fault_free_def hs pd
      by (auto simp: list_all_length nth_list_update)
  qed
qed (use assms in \<open>auto simp: fault_free_def run_step_def accept_step_def handle_error_step_def
       new_handler_def new_conn_def split: run_pc.splits option.splits prod.splits\<close>)

lemma fault_free_exec:
  "fault_free s \<Longrightarrow> \<not> list_ex injects_fault sched \<Longrightarrow> fault_free (exec rv sched s)"
  by (induction sched arbitrary: s) (simp_all add: fault_free_step)

lemma fault_free_schedule:
  "\<not> list_ex injects_fault sched \<Longrightarrow> fault_free (exec rv sched (init_state d))"
  by (rule fault_free_exec) (simp_all add: fault_free_def init_state_def)

lemma exec_delivered:
  "handlers (exec WithContext sched_delivered (init_state ''127.0.0.1:9'')) =
     [\<lparr>hpc = HWait, ctx_done = True, lwg = 4,
       cin = \<lparr>inbox = [], peer_sent = ''deadbeef random string'', peer_fin = True,
               faulty = False, outbox = [], closed = False\<rparr>,
       cout = \<lparr>inbox = [], peer_sent = [], peer_fin = False, faulty = False,
                outbox = ''deadbeef random string'', closed = True\<rparr>,
       close_in = CloserWait, close_out = CloserDone,
       copy_back = CopyRead, copy_fwd = CopyWgDone None\<rparr>]"
  by (simp add: sched_delivered_def step_defs)

lemma exec_defer_both:
  "handlers (exec WithDefer sched_defer_both (init_state ''127.0.0.1:9'')) =
     [\<lparr>hpc = HCloseIn, ctx_done = False, lwg = 0,
       cin = \<lparr>inbox = [], peer_sent = ''ping'', peer_fin = True,
               faulty = False, outbox = ''pong'', closed = False\<rparr>,
       cout = \<lparr>inbox = [], peer_sent = ''pong'', peer_fin = True, faulty = False,
                outbox = ''ping'', closed = True\<rparr>,
       close_in = CloserIdle, close_out = CloserIdle,
       copy_back = CopyEnd None, copy_fwd = CopyEnd None\<rparr>]"
  by (simp add: sched_defer_both_def step_defs)

text \<open>
  C3, as amended. For every pair of every reachable state (both revisions, every
  schedule, faults included), what has been written to one connection is a prefix of
  what the peer of the other connection has written, so bytes arrive in order, unchanged
  and once; and a direction whose \<open>io.Copy\<close> has returned \<open>nil\<close> has delivered
  everything. Absent an injected fault (the schedule injects none, or at least neither
  connection of the pair was reset and the caller has not cancelled), once a connection
  of a dialed pair is closed, so that a side can observe end-of-stream: in \<open>WithDefer\<close>
  each side has received exactly what the other wrote; in \<open>WithContext\<close> at least one
  direction has ended with a clean end-of-stream and has delivered everything written in
  it (the other may have lost what was not yet delivered when both connections were
  closed).
\<close>
theorem C3_delivered_prefix:
  assumes "h \<in> set (handlers (exec rv sched (init_state d)))"
  shows "prefix (outbox (cout h)) (peer_sent (cin h))
     \<and> prefix (outbox (cin h)) (peer_sent (cout h))
     \<and> (copy_result (copy_fwd h) = Some None \<longrightarrow> outbox (cout h) = peer_sent (cin h))
     \<and> (copy_result (copy_back h) = Some None \<longrightarrow> outbox (cin h) = peer_sent (cout h))
     \<and> (dialed h \<and> (closed (cin h) \<or> closed (cout h))
         \<and> (\<not> list_ex injects_fault sched
             \<or> \<not> faulty (cin h) \<and> \<not> faulty (cout h)
               \<and> \<not> parent_done (exec rv sched (init_state d))) \<longrightarrow>
         (case rv of
            WithDefer \<Rightarrow>
              outbox (cout h) = peer_sent (cin h) \<and> outbox (cin h) = peer_sent (cout h)
          | WithContext \<Rightarrow>
              (copy_result (copy_fwd h) = Some None \<and> outbox (cout h) = peer_sent (cin h))
              \<or> (copy_result (copy_back h) = Some None \<and> outbox (cin h) = peer_sent (cout h))))"
proof -
  let ?s = "exec rv sched (init_state d)"
  have "pair_stream_inv h" using assms by (rule reachable_stream_inv)
  then have f: "stream_inv (copy_fwd h) (cin h) (cout h)"
    and b: "stream_inv (copy_back h) (cout h) (cin h)"
    by (simp_all add: pair_stream_inv_def)
  have first: "prefix (outbox (cout h)) (peer_sent (cin h))
     \<and> prefix (outbox (cin h)) (peer_sent (cout h))
     \<and> (copy_result (copy_fwd h) = Some None \<longrightarrow> outbox (cout h) = peer_sent (cin h))
     \<and> (copy_result (copy_back h) = Some None \<longrightarrow> outbox (cin h) = peer_sent (cout h))"
    using stream_inv_prefix [OF f] stream_inv_prefix [OF b] by simp
  have second: "case rv of
            WithDefer \<Rightarrow>
              outbox (cout h) = peer_sent (cin h) \<and> outbox (cin h) = peer_sent (cout h)
          | WithContext \<Rightarrow>
              (copy_result (copy_fwd h) = Some None \<and> outbox (cout h) = peer_sent (cin h))
              \<or> (copy_result (copy_back h) = Some None \<and> outbox (cin h) = peer_sent (cout h))"
    if dl: "dialed h" and c: "closed (cin h) \<or> closed (cout h)"
      and ff: "\<not> list_ex injects_fault sched
             \<or> \<not> faulty (cin h) \<and> \<not> faulty (cout h) \<and> \<not> parent_done ?s"
  proof -
    have nf: "\<not> faulty (cin h)" "\<not> faulty (cout h)" "\<not> parent_done ?s"
      using ff fault_free_schedule [of sched rv d] assms
      by (auto simp: fault_free_def list_all_iff)
    show ?thesis
    proof (cases rv)
      case WithContext
      then show ?thesis
        using context_closed_one_complete [of h sched d] assms dl c nf by simp
    next
      case WithDefer
      have "closed (cout h)" using defer_closed_in_out [of h sched d] assms dl c WithDefer by simp
      then show ?thesis
        using defer_closed_complete [of h sched d] assms nf WithDefer by simp
    qed
  qed
  from first second show ?thesis by blast
qed

theorem C3_delivered_prefix_witness:
  "handlers (exec WithContext sched_delivered (init_state ''127.0.0.1:9'')) ! 0
     \<in> set (handlers (exec WithContext sched_delivered (init_state ''127.0.0.1:9'')))
   \<and> \<not> list_ex injects_fault sched_delivered
   \<and> dialed (handlers (exec WithContext sched_delivered (init_state ''127.0.0.1:9'')) ! 0)
   \<and> closed (cout (handlers (exec WithContext sched_delivered
        (init_state ''127.0.0.1:9'')) ! 0))
   \<and> copy_result (copy_fwd (handlers (exec WithContext sched_delivered
        (init_state ''127.0.0.1:9'')) ! 0)) = Some None
   \<and> peer_sent (cin (handlers (exec WithContext sched_delivered
        (init_state ''127.0.0.1:9'')) ! 0)) = ''deadbeef random string''
   \<and> outbox (cout (handlers (exec WithContext sched_delivered
        (init_state ''127.0.0.1:9'')) ! 0)) = ''deadbeef random string''
   \<and> handlers (exec WithDefer sched_defer_both (init_state ''127.0.0.1:9'')) ! 0
     \<in> set (handlers (exec WithDefer sched_defer_both (init_state ''127.0.0.1:9'')))
   \<and> \<not> list_ex injects_fault sched_defer_both
   \<and> dialed (handlers (exec WithDefer sched_defer_both (init_state ''127.0.0.1:9'')) ! 0)
   \<and> closed (cout (handlers (exec WithDefer sched_defer_both
        (init_state ''127.0.0.1:9'')) ! 0))
   \<and> outbox (cout (handlers (exec WithDefer sched_defer_both
        (init_state ''127.0.0.1:9'')) ! 0)) = ''ping''
   \<and> outbox (cin (handlers (exec WithDefer sched_defer_both
        (init_state ''127.0.0.1:9'')) ! 0)) = ''pong''"
  using C3_delivered_prefix [of "handlers (exec WithContext sched_delivered
        (init_state ''127.0.0.1:9'')) ! 0" WithContext sched_delivered "''127.0.0.1:9''"]
    C3_delivered_prefix [of "handlers (exec WithDefer sched_defer_both
        (init_state ''127.0.0.1:9'')) ! 0" WithDefer sched_defer_both "''127.0.0.1:9''"]
  by (simp add: exec_delivered exec_defer_both dialed_def)
     (simp add: sched_delivered_def sched_defer_both_def)

theorem C3_counterexample:
  "\<not> list_ex injects_fault sched_truncated
   \<and> closed (cin (handlers (exec WithContext sched_truncated (init_state ''127.0.0.1:9'')) ! 0))
   \<and> peer_sent (cout (handlers (exec WithContext sched_truncated
        (init_state ''127.0.0.1:9'')) ! 0)) = ''b''
   \<and> outbox (cin (handlers (exec WithContext sched_truncated
        (init_state ''127.0.0.1:9'')) ! 0)) = []"
  by (simp add: exec_truncated) (simp add: sched_truncated_def)

section \<open>The counters of the wait groups\<close>

text \<open>\<open>Done()\<close> is only ever called on a counter above zero.\<close>

lemma accept_Done_positive: "wg_inv s \<Longrightarrow> rpc s = RunAccept \<Longrightarrow> 0 < wg (prx s)"
  by (simp add: wg_inv_def)

lemma in_flight_positive: "h \<in> set hs \<Longrightarrow> hpc h \<noteq> HDone \<Longrightarrow> 0 < in_flight hs"
  by (auto simp: in_flight_def filter_empty_conv)

lemma handler_Done_positive:
  "wg_inv s \<Longrightarrow> h \<in> set (handlers s) \<Longrightarrow> hpc h = HWgDone \<Longrightarrow> 0 < wg (prx s)"
  using in_flight_positive [of h "handlers s"] by (simp add: wg_inv_def)

lemma copy_Done_positive_context:
  "wait_inv h \<Longrightarrow> copy_fwd h = CopyWgDone eo \<or> copy_back h = CopyWgDone eo \<Longrightarrow> 0 < lwg h"
  by (auto simp: wait_inv_def dialed_def split: if_splits)

lemma copy_Done_positive_defer:
  "defer_inv h \<Longrightarrow> copy_fwd h = CopyWgDone eo \<or> copy_back h = CopyWgDone eo \<Longrightarrow> 0 < lwg h"
  by (auto simp: defer_inv_def dialed_def split: if_splits)

end
